theory Spec2Isabelle
  imports Main "HOL-Library.Sublist" "HOL-Library.List_Lexorder"
begin

section \<open>Strings, bytes and paths\<close>

text \<open>
  A Python \<open>str\<close> is a sequence of Unicode code points and \<open>len\<close> counts code points, so
  a \<open>str\<close> is modelled as a list of code points (\<open>nat\<close>); \<open>str\<close> turns an ASCII literal
  into such a list. A Python \<open>bytes\<close> value is a list of 8-bit characters. A path is the
  text of the \<open>pathlib.Path\<close>, with \<open>/\<close> between its parts.
\<close>

type_synonym pystr = "nat list"
type_synonym bytes = "string"
type_synonym path = "pystr"

definition str :: "string \<Rightarrow> pystr" where
  "str s = map of_char s"

text \<open>\<open>str(n)\<close> and \<open>f"{n}"\<close> for a non-negative integer: its decimal digits.\<close>

fun decimal :: "nat \<Rightarrow> pystr" where
  "decimal n = (if n < 10 then [48 + n] else decimal (n div 10) @ [48 + n mod 10])"

text \<open>\<open>output_dir / pdf_filename\<close> for a file name that holds no separator.\<close>

definition path_join :: "path \<Rightarrow> pystr \<Rightarrow> path" where
  "path_join dir filename = dir @ str ''/'' @ filename"

section \<open>\<open>sanitize_filename\<close> (gddown.py, lines 58 to 68)\<close>

text \<open>
  The character class \<open>[<>:"/\\|?*\x00-\x1f]\<close>: the nine listed characters
  (\<open>0x22\<close> is the double quote, \<open>0x5C\<close> the backslash) and the control characters
  \<open>0x00\<close> to \<open>0x1f\<close>.
\<close>

definition illegal_chars :: "nat \<Rightarrow> bool" where
  "illegal_chars c \<longleftrightarrow>
     c \<in> set (str ''<>:'' @ [0x22] @ str ''/'' @ [0x5C] @ str ''|?*'') \<or> c \<le> 0x1f"

text \<open>\<open>re.sub(illegal_chars, '_', filename)\<close>: every character of the class becomes \<open>_\<close>.\<close>

definition re_sub_illegal :: "pystr \<Rightarrow> pystr" where
  "re_sub_illegal filename = map (\<lambda>c. if illegal_chars c then 95 else c) filename"

text \<open>\<open>s.rstrip(chars)\<close>: the longest suffix made of characters of \<open>chars\<close> is cut.\<close>

definition rstrip :: "pystr \<Rightarrow> pystr \<Rightarrow> pystr" where
  "rstrip chars s = rev (dropWhile (\<lambda>c. c \<in> set chars) (rev s))"

definition sanitize_filename :: "pystr \<Rightarrow> pystr" where
  "sanitize_filename filename =
     (let sanitized = re_sub_illegal filename;
          sanitized = rstrip (str ''. '') sanitized
      in if length sanitized > 200 then take 200 sanitized else sanitized)"

section \<open>URL shapes (gddown.py, lines 70 to 102)\<close>

text \<open>The character class \<open>[a-zA-Z0-9-_]\<close>: letters, digits, \<open>-\<close> (45) and \<open>_\<close> (95).\<close>

definition id_char :: "nat \<Rightarrow> bool" where
  "id_char c \<longleftrightarrow>
     (97 \<le> c \<and> c \<le> 122) \<or> (65 \<le> c \<and> c \<le> 90) \<or> (48 \<le> c \<and> c \<le> 57) \<or> c = 45 \<or> c = 95"

text \<open>
  A match of \<open>/file/d/([a-zA-Z0-9-_]+)/\<close> that starts at the head of \<open>s\<close>, as its group 1.
  The greedy \<open>+\<close> takes the longest run of class characters; giving characters back cannot
  help, since the \<open>/\<close> that must follow is not in the class.
\<close>

definition match_file_id :: "pystr \<Rightarrow> pystr option" where
  "match_file_id s =
     (if prefix (str ''/file/d/'') s
      then (let rest = drop 8 s;
                group1 = takeWhile id_char rest;
                after = dropWhile id_char rest
            in if group1 \<noteq> [] \<and> prefix (str ''/'') after then Some group1 else None)
      else None)"

text \<open>\<open>re.search\<close>: the leftmost start position that matches.\<close>

fun re_search_file_id :: "pystr \<Rightarrow> pystr option" where
  "re_search_file_id [] = match_file_id []"
| "re_search_file_id (c # cs) =
     (case match_file_id (c # cs) of
        Some g \<Rightarrow> Some g
      | None \<Rightarrow> re_search_file_id cs)"

definition extract_file_id_from_url :: "pystr \<Rightarrow> pystr option" where
  "extract_file_id_from_url url = re_search_file_id url"

definition is_folder_url :: "pystr \<Rightarrow> bool" where
  "is_folder_url url \<longleftrightarrow> sublist (str ''/drive/folders/'') url"

definition is_file_url :: "pystr \<Rightarrow> bool" where
  "is_file_url url \<longleftrightarrow> sublist (str ''/file/d/'') url"

text \<open>The URL that folder expansion builds for a file id (line 491).\<close>

definition file_url :: "pystr \<Rightarrow> pystr" where
  "file_url file_id = str ''https://drive.google.com/file/d/'' @ file_id @ str ''/view''"

section \<open>Page discovery and capture: \<open>capture_blob_images\<close> (lines 160 to 312)\<close>

text \<open>An exception, with the text that \<open>str(e)\<close> gives.\<close>

datatype exn = Exception pystr

text \<open>
  The viewer page, as the function sees it. \<open>blob_urls k\<close> is what the query of line 181
  returns at loop attempt \<open>k\<close> (the blob image URLs in DOM order) or the exception it
  raises; \<open>scroll_last k\<close> and \<open>press_page_down k\<close> are the exceptions that the scroll of
  line 220 and the key press of line 233 raise at attempt \<open>k\<close>, if any. The last three
  fields answer the capture of one URL: the fetch of line 249, the canvas query of line 271
  (\<open>None\<close> is JavaScript's \<open>null\<close>) and \<open>base64.b64decode\<close>.
\<close>

record viewer_page =
  blob_urls :: "nat \<Rightarrow> exn + pystr list"
  scroll_last :: "nat \<Rightarrow> exn option"
  press_page_down :: "nat \<Rightarrow> exn option"
  fetch_blob :: "pystr \<Rightarrow> exn + bytes"
  canvas_b64 :: "pystr \<Rightarrow> exn + pystr option"
  b64decode :: "pystr \<Rightarrow> exn + bytes"

definition max_scroll_attempts_pages :: nat where
  "max_scroll_attempts_pages = 8"

definition max_pages_cap :: nat where
  "max_pages_cap = 200"

text \<open>How a discovery loop was left.\<close>

datatype loop_exit =
    Cap_reached
  | No_new_items
  | Range_exhausted
  | Raised exn

text \<open>Lines 195 to 199: \<open>for u in urls: if u not in collected_urls: append, added += 1\<close>.\<close>

fun add_new_urls :: "pystr list \<Rightarrow> pystr list \<Rightarrow> nat \<Rightarrow> pystr list \<times> nat" where
  "add_new_urls [] collected_urls added = (collected_urls, added)"
| "add_new_urls (u # urls) collected_urls added =
     (if u \<notin> set collected_urls
      then add_new_urls urls (collected_urls @ [u]) (added + 1)
      else add_new_urls urls collected_urls added)"

text \<open>
  Lines 219 to 235: the scroll, with the key press as its fallback and \<open>pass\<close> as the
  fallback's. The value is the exception that leaves the statement.
\<close>

definition scroll_last_into_view :: "viewer_page \<Rightarrow> nat \<Rightarrow> exn option" where
  "scroll_last_into_view page attempt =
     (case scroll_last page attempt of
        None \<Rightarrow> None
      | Some e \<Rightarrow> (case press_page_down page attempt of None \<Rightarrow> None | Some e' \<Rightarrow> None))"

text \<open>
  Lines 179 to 238, \<open>for attempt in range(0, 1000)\<close>, over the attempts still to run, from
  the state \<open>(collected_urls, no_new_count)\<close>. The query of line 181 stands in no
  \<open>try\<close> of the loop: its exception leaves the loop (\<open>Raised\<close>).
\<close>

fun discover_blob_urls ::
  "viewer_page \<Rightarrow> nat list \<Rightarrow> pystr list \<Rightarrow> nat \<Rightarrow> loop_exit \<times> pystr list \<times> nat" where
  "discover_blob_urls page [] collected_urls no_new_count =
     (Range_exhausted, collected_urls, no_new_count)"
| "discover_blob_urls page (attempt # rest) collected_urls no_new_count =
     (case blob_urls page attempt of
        Inl e \<Rightarrow> (Raised e, collected_urls, no_new_count)
      | Inr urls \<Rightarrow>
          (let (collected_urls, added) = add_new_urls urls collected_urls 0
           in if length collected_urls \<ge> max_pages_cap
              then (Cap_reached, collected_urls, no_new_count)
              else (let no_new_count = (if added = 0 then no_new_count + 1 else 0)
                    in if no_new_count \<ge> max_scroll_attempts_pages
                       then (No_new_items, collected_urls, no_new_count)
                       else (case scroll_last_into_view page attempt of
                               Some e \<Rightarrow> (Raised e, collected_urls, no_new_count)
                             | None \<Rightarrow> discover_blob_urls page rest collected_urls no_new_count))))"

text \<open>
  Lines 244 to 305, for one URL: the fetch, then the canvas fallback; \<open>None\<close> when neither
  gives the page's bytes (a warning is logged and the page is left out).
\<close>

definition capture_page :: "viewer_page \<Rightarrow> pystr \<Rightarrow> bytes option" where
  "capture_page page blob_url =
     (case fetch_blob page blob_url of
        Inr image_buffer \<Rightarrow> Some image_buffer
      | Inl fetch_error \<Rightarrow>
          (case canvas_b64 page blob_url of
             Inl canvas_err \<Rightarrow> None
           | Inr None \<Rightarrow> None
           | Inr (Some img_b64) \<Rightarrow>
               (if img_b64 = [] then None
                else (case b64decode page img_b64 of
                        Inl canvas_err \<Rightarrow> None
                      | Inr image_buffer \<Rightarrow> Some image_buffer))))"

primrec capture_pages :: "viewer_page \<Rightarrow> pystr list \<Rightarrow> bytes list" where
  "capture_pages page [] = []"
| "capture_pages page (blob_url # rest) =
     (case capture_page page blob_url of
        None \<Rightarrow> capture_pages page rest
      | Some image_buffer \<Rightarrow> image_buffer # capture_pages page rest)"

text \<open>
  The whole function: an exception that leaves the discovery loop is caught at line 310,
  which returns the empty list.
\<close>

definition capture_blob_images :: "viewer_page \<Rightarrow> bytes list" where
  "capture_blob_images page =
     (case discover_blob_urls page [0..<1000] [] 0 of
        (Raised e, collected_urls, no_new_count) \<Rightarrow> []
      | (_, collected_urls, no_new_count) \<Rightarrow> capture_pages page collected_urls)"

section \<open>Folder expansion: \<open>extract_files_from_folder\<close> (lines 375 to 505)\<close>

text \<open>One element of the list the query of line 420 returns: \<open>{id: fileId, name: ...}\<close>.\<close>

record file_data_item =
  item_id :: pystr
  item_name :: pystr

text \<open>
  The folder page. \<open>open_folder\<close> is the exception raised while the page is opened and
  loaded (lines 390 to 397), \<open>close_folder\<close> the one raised by \<open>page.close()\<close> at line 496;
  \<open>file_data k\<close> is the answer of the query of line 420 at attempt \<open>k\<close>;
  \<open>scroll_by k\<close> and \<open>folder_page_down k\<close> are the exceptions of lines 476 and 479.
  \<open>collected_file_ids\<close> is a Python \<open>set\<close>: \<open>set_order\<close> is the order in which the
  interpreter iterates over a set of strings (it follows the strings' hashes, which differ
  from one run to the next).
\<close>

record folder_page =
  open_folder :: "exn option"
  file_data :: "nat \<Rightarrow> exn + file_data_item list"
  scroll_by :: "nat \<Rightarrow> exn option"
  folder_page_down :: "nat \<Rightarrow> exn option"
  set_order :: "pystr set \<Rightarrow> pystr list"
  close_folder :: "exn option"

definition max_scroll_attempts_folder :: nat where
  "max_scroll_attempts_folder = 15"

text \<open>
  Lines 454 to 460: \<open>if file_id and file_id not in collected_file_ids: add, added += 1\<close>.
\<close>

fun add_new_file_ids :: "file_data_item list \<Rightarrow> pystr set \<Rightarrow> nat \<Rightarrow> pystr set \<times> nat" where
  "add_new_file_ids [] collected_file_ids added = (collected_file_ids, added)"
| "add_new_file_ids (file_data_item # items) collected_file_ids added =
     (let file_id = item_id file_data_item
      in if file_id \<noteq> [] \<and> file_id \<notin> collected_file_ids
         then add_new_file_ids items (insert file_id collected_file_ids) (added + 1)
         else add_new_file_ids items collected_file_ids added)"

text \<open>Lines 475 to 481: the scroll, its key press fallback, and \<open>pass\<close>.\<close>

definition scroll_folder :: "folder_page \<Rightarrow> nat \<Rightarrow> exn option" where
  "scroll_folder page attempt =
     (case scroll_by page attempt of
        None \<Rightarrow> None
      | Some e \<Rightarrow> (case folder_page_down page attempt of None \<Rightarrow> None | Some e' \<Rightarrow> None))"

text \<open>
  Lines 416 to 487, \<open>for attempt in range(100)\<close>. The whole body stands in a \<open>try\<close> whose
  handler is \<open>break\<close>: an exception of the query ends the loop, and the ids collected so
  far are kept (\<open>Raised\<close>).
\<close>

fun scan_folder ::
  "folder_page \<Rightarrow> nat list \<Rightarrow> pystr set \<Rightarrow> nat \<Rightarrow> loop_exit \<times> pystr set \<times> nat" where
  "scan_folder page [] collected_file_ids no_new_count =
     (Range_exhausted, collected_file_ids, no_new_count)"
| "scan_folder page (attempt # rest) collected_file_ids no_new_count =
     (case file_data page attempt of
        Inl e \<Rightarrow> (Raised e, collected_file_ids, no_new_count)
      | Inr items \<Rightarrow>
          (let (collected_file_ids, added) = add_new_file_ids items collected_file_ids 0;
               no_new_count = (if added = 0 then no_new_count + 1 else 0)
           in if no_new_count \<ge> max_scroll_attempts_folder
              then (No_new_items, collected_file_ids, no_new_count)
              else (case scroll_folder page attempt of
                      Some e \<Rightarrow> (Raised e, collected_file_ids, no_new_count)
                    | None \<Rightarrow> scan_folder page rest collected_file_ids no_new_count)))"

text \<open>Lines 489 to 492: one file URL per collected id, in the set's iteration order.\<close>

definition folder_file_urls :: "folder_page \<Rightarrow> pystr set \<Rightarrow> pystr list" where
  "folder_file_urls page collected_file_ids = map file_url (set_order page collected_file_ids)"

text \<open>
  The list of file URLs the function returns (the folder name, its second result, is not
  modelled). An exception outside the loop is caught at line 499, which returns the empty
  list.
\<close>

definition extract_files_from_folder :: "folder_page \<Rightarrow> pystr list" where
  "extract_files_from_folder page =
     (case open_folder page of
        Some e \<Rightarrow> []
      | None \<Rightarrow>
          (let (ex, collected_file_ids, no_new_count) = scan_folder page [0..<100] {} 0;
               file_urls = folder_file_urls page collected_file_ids
           in case close_folder page of
                Some e \<Rightarrow> []
              | None \<Rightarrow> file_urls))"

section \<open>Document assembly: \<open>compile_pdf\<close> (lines 314 to 373)\<close>

text \<open>
  The file system is a map from paths to file contents. The libraries and the faults of
  the file system are parameters:
  \<^item> \<open>open_wb p\<close> is the exception \<open>open(p, 'wb')\<close> raises, if any;
  \<^item> \<open>write_fault p data\<close> says how \<open>f.write(data)\<close> on the open file \<open>p\<close> fails, if it
    does: it raises the exception after the given number of bytes were written (a full
    disk, a file size limit);
  \<^item> \<open>image_open\<close> is the mode of the image \<open>Image.open\<close> finds in a file's bytes, or the
    exception it raises;
  \<^item> \<open>to_rgb_jpeg\<close> is the JPEG encoding (quality 95) of the image pasted on a white
    background, or the exception \<open>Image.new\<close>, \<open>split\<close> or \<open>paste\<close> raises;
  \<^item> \<open>save_fault p jpeg\<close> says how \<open>save\<close> fails after it opened \<open>p\<close>, if it does: the
    exception it raises and what it leaves at \<open>p\<close> (nothing, or some bytes);
  \<^item> \<open>img2pdf_convert\<close> is \<open>img2pdf.convert\<close> on the contents of the files it is given;
  \<^item> \<open>unlink_fault p\<close> is the exception \<open>unlink\<close> of the existing file \<open>p\<close> raises, if
    any; the file then stays.
\<close>

type_synonym fs = "path \<rightharpoonup> bytes"

datatype image_mode = Mode_RGBA | Mode_LA | Mode_P | Mode_other

record pdf_env =
  open_wb :: "path \<Rightarrow> exn option"
  write_fault :: "path \<Rightarrow> bytes \<Rightarrow> (nat \<times> exn) option"
  image_open :: "bytes \<Rightarrow> exn + image_mode"
  to_rgb_jpeg :: "bytes \<Rightarrow> exn + bytes"
  save_fault :: "path \<Rightarrow> bytes \<Rightarrow> (bytes option \<times> exn) option"
  img2pdf_convert :: "bytes list \<Rightarrow> exn + bytes"
  unlink_fault :: "path \<Rightarrow> exn option"

datatype log_level = ERROR | WARNING | INFO

type_synonym log = "(log_level \<times> pystr) list"

fun exn_text :: "exn \<Rightarrow> pystr" where
  "exn_text (Exception msg) = msg"

definition temp_dir :: path where
  "temp_dir = str ''temp_images''"

text \<open>\<open>f"{idx:04d}"\<close>: the decimal digits, padded with zeros to four characters.\<close>

definition pad4 :: "nat \<Rightarrow> pystr" where
  "pad4 idx = replicate (4 - length (decimal idx)) 48 @ decimal idx"

text \<open>Line 335: \<open>self.temp_dir / f"page_{idx:04d}.png"\<close>.\<close>

definition temp_page_path :: "nat \<Rightarrow> path" where
  "temp_page_path idx = path_join temp_dir (str ''page_'' @ pad4 idx @ str ''.png'')"

text \<open>
  \<open>p.with_suffix(ext)\<close> for a path whose last part has a suffix: the text from the
  last dot on is replaced.
\<close>

definition with_suffix :: "pystr \<Rightarrow> path \<Rightarrow> path" where
  "with_suffix ext p = rev (tl (dropWhile (\<lambda>c. c \<noteq> 46) (rev p))) @ ext"

text \<open>
  \<open>f.write(data)\<close> on the file \<open>p\<close>, just opened and so empty: the files after it and the
  exception it raises. A write that fails leaves the bytes written before the failure.
\<close>

definition f_write :: "pdf_env \<Rightarrow> fs \<Rightarrow> path \<Rightarrow> bytes \<Rightarrow> fs \<times> exn option" where
  "f_write env files p data =
     (case write_fault env p data of
        None \<Rightarrow> (files(p \<mapsto> data), None)
      | Some (written, e) \<Rightarrow> (files(p \<mapsto> take written data), Some e))"

text \<open>
  Lines 334 to 338, from index \<open>idx\<close> on: each image is written to its temporary file.
  An exception of \<open>open\<close> or of \<open>f.write\<close> leaves the loop; the files written before it
  stay.
\<close>

fun save_temp_images ::
  "pdf_env \<Rightarrow> fs \<Rightarrow> nat \<Rightarrow> bytes list \<Rightarrow> path list \<Rightarrow> fs \<times> (exn + path list)" where
  "save_temp_images env files idx [] temp_image_paths = (files, Inr temp_image_paths)"
| "save_temp_images env files idx (img_data # rest) temp_image_paths =
     (let temp_path = temp_page_path idx
      in case open_wb env temp_path of
           Some e \<Rightarrow> (files, Inl e)
         | None \<Rightarrow>
             (case f_write env (files(temp_path \<mapsto> [])) temp_path img_data of
                (files, Some e) \<Rightarrow> (files, Inl e)
              | (files, None) \<Rightarrow>
                  save_temp_images env files (idx + 1) rest (temp_image_paths @ [temp_path])))"

text \<open>
  Line 350, \<open>rgb_img.save(rgb_path, 'JPEG', quality=95)\<close>: the file is opened, then
  written.
\<close>

definition save_jpeg :: "pdf_env \<Rightarrow> fs \<Rightarrow> path \<Rightarrow> bytes \<Rightarrow> fs \<times> exn option" where
  "save_jpeg env files rgb_path jpeg =
     (case open_wb env rgb_path of
        Some e \<Rightarrow> (files, Some e)
      | None \<Rightarrow>
          (case save_fault env rgb_path jpeg of
             None \<Rightarrow> (files(rgb_path \<mapsto> jpeg), None)
           | Some (left, e) \<Rightarrow> (files(rgb_path := left), Some e)))"

text \<open>
  Lines 344 to 353, the body of the \<open>try\<close> for one image: the files after it, and the
  path to append or the exception raised.
\<close>

definition convert_image :: "pdf_env \<Rightarrow> fs \<Rightarrow> path \<Rightarrow> fs \<times> (exn + path)" where
  "convert_image env files img_path =
     (case files img_path of
        None \<Rightarrow> (files, Inl (Exception (str ''No such file or directory'')))
      | Some data \<Rightarrow>
          (case image_open env data of
             Inl e \<Rightarrow> (files, Inl e)
           | Inr mode \<Rightarrow>
               (if mode \<in> {Mode_RGBA, Mode_LA, Mode_P}
                then (case to_rgb_jpeg env data of
                        Inl e \<Rightarrow> (files, Inl e)
                      | Inr jpeg \<Rightarrow>
                          (let rgb_path = with_suffix (str ''.jpg'') img_path
                           in case save_jpeg env files rgb_path jpeg of
                                (files, Some e) \<Rightarrow> (files, Inl e)
                              | (files, None) \<Rightarrow> (files, Inr rgb_path)))
                else (files, Inr img_path))))"

text \<open>Line 355: \<open>logger.warning(f"Error converting image {img_path}: {e}")\<close>.\<close>

definition convert_warning :: "path \<Rightarrow> exn \<Rightarrow> log_level \<times> pystr" where
  "convert_warning img_path e =
     (WARNING, str ''Error converting image '' @ img_path @ str '': '' @ exn_text e)"

text \<open>
  Lines 341 to 356: the handler of line 354 logs a warning and appends the image's own
  path.
\<close>

fun convert_images ::
  "pdf_env \<Rightarrow> path list \<Rightarrow> fs \<Rightarrow> path list \<Rightarrow> log \<Rightarrow> fs \<times> path list \<times> log" where
  "convert_images env [] files rgb_image_paths lg = (files, rgb_image_paths, lg)"
| "convert_images env (img_path # rest) files rgb_image_paths lg =
     (case convert_image env files img_path of
        (files, Inr p) \<Rightarrow> convert_images env rest files (rgb_image_paths @ [p]) lg
      | (files, Inl e) \<Rightarrow>
          convert_images env rest files (rgb_image_paths @ [img_path])
            (lg @ [convert_warning img_path e]))"

text \<open>The files \<open>img2pdf.convert\<close> reads, or the exception of the first one missing.\<close>

fun read_files :: "fs \<Rightarrow> path list \<Rightarrow> exn + bytes list" where
  "read_files files [] = Inr []"
| "read_files files (p # ps) =
     (case files p of
        None \<Rightarrow> Inl (Exception (str ''No such file or directory''))
      | Some data \<Rightarrow>
          (case read_files files ps of
             Inl e \<Rightarrow> Inl e
           | Inr rest \<Rightarrow> Inr (data # rest)))"

text \<open>
  Lines 359 and 360: \<open>open(output_path, 'wb')\<close> creates or empties the file before the
  argument of \<open>f.write\<close> is evaluated, so an exception of \<open>img2pdf.convert\<close> leaves the
  empty file behind, and a write that fails leaves the part written.
\<close>

definition write_pdf :: "pdf_env \<Rightarrow> fs \<Rightarrow> path list \<Rightarrow> path \<Rightarrow> fs \<times> exn option" where
  "write_pdf env files rgb_image_paths output_path =
     (case open_wb env output_path of
        Some e \<Rightarrow> (files, Some e)
      | None \<Rightarrow>
          (let files = files(output_path \<mapsto> [])
           in case read_files files rgb_image_paths of
                Inl e \<Rightarrow> (files, Some e)
              | Inr contents \<Rightarrow>
                  (case img2pdf_convert env contents of
                     Inl e \<Rightarrow> (files, Some e)
                   | Inr pdf \<Rightarrow> f_write env files output_path pdf)))"

text \<open>
  Lines 365 to 367: \<open>if img_path.exists(): img_path.unlink()\<close>, for each path. An
  exception of \<open>unlink\<close> leaves the loop.
\<close>

fun unlink_all :: "pdf_env \<Rightarrow> path list \<Rightarrow> fs \<Rightarrow> fs \<times> exn option" where
  "unlink_all env [] files = (files, None)"
| "unlink_all env (img_path # rest) files =
     (if files img_path \<noteq> None
      then (case unlink_fault env img_path of
              Some e \<Rightarrow> (files, Some e)
            | None \<Rightarrow> unlink_all env rest (files(img_path := None)))
      else unlink_all env rest files)"

text \<open>Line 372: \<open>logger.error(f"Error compiling PDF: {e}")\<close>.\<close>

definition compile_error :: "exn \<Rightarrow> log_level \<times> pystr" where
  "compile_error e = (ERROR, str ''Error compiling PDF: '' @ exn_text e)"

text \<open>
  The function: its result, the files after the call and what it logged. Every exception
  raised in the \<open>try\<close> of line 329 reaches the handler of line 371, which logs it and
  returns \<open>False\<close>.
\<close>

definition compile_pdf :: "pdf_env \<Rightarrow> fs \<Rightarrow> bytes list \<Rightarrow> path \<Rightarrow> bool \<times> fs \<times> log" where
  "compile_pdf env files image_data_list output_path =
     (if image_data_list = []
      then (False, files, [(ERROR, str ''No images to compile'')])
      else
        (let lg = [(INFO, str ''Compiling '' @ decimal (length image_data_list)
                            @ str '' images into PDF...'')]
         in case save_temp_images env files 0 image_data_list [] of
              (files, Inl e) \<Rightarrow> (False, files, lg @ [compile_error e])
            | (files, Inr temp_image_paths) \<Rightarrow>
                (let (files, rgb_image_paths, lg) =
                       convert_images env temp_image_paths files [] lg
                 in case write_pdf env files rgb_image_paths output_path of
                      (files, Some e) \<Rightarrow> (False, files, lg @ [compile_error e])
                    | (files, None) \<Rightarrow>
                        (let lg = lg @ [(INFO, str ''PDF compiled successfully: ''
                                               @ output_path)]
                         in case unlink_all env (temp_image_paths @ rgb_image_paths) files of
                              (files, Some e) \<Rightarrow> (False, files, lg @ [compile_error e])
                            | (files, None) \<Rightarrow> (True, files, lg)))))"

section \<open>Output naming in \<open>download_pdf\<close> (lines 551 to 561)\<close>





section \<open>Notions used in the statements\<close>

text \<open>The URLs that the queries of the given attempts returned.\<close>

definition urls_seen :: "viewer_page \<Rightarrow> nat list \<Rightarrow> pystr set" where
  "urls_seen page attempts =
     (\<Union>k \<in> set attempts. case blob_urls page k of Inl e \<Rightarrow> {} | Inr urls \<Rightarrow> set urls)"

text \<open>Every query succeeds and shows a URL that no earlier query showed.\<close>

definition always_new :: "viewer_page \<Rightarrow> bool" where
  "always_new page \<longleftrightarrow>
     (\<forall>k. \<exists>urls. blob_urls page k = Inr urls \<and> (\<exists>u \<in> set urls. u \<notin> urls_seen page [0..<k]))"

text \<open>The non-empty ids of a query's answer, and those of the given attempts.\<close>

definition ids_of_items :: "file_data_item list \<Rightarrow> pystr set" where
  "ids_of_items items = set (filter (\<lambda>file_id. file_id \<noteq> []) (map item_id items))"

definition ids_seen :: "folder_page \<Rightarrow> nat list \<Rightarrow> pystr set" where
  "ids_seen page attempts =
     (\<Union>k \<in> set attempts. case file_data page k of Inl e \<Rightarrow> {} | Inr items \<Rightarrow> ids_of_items items)"

text \<open>
  What Python promises of the iteration over a set: every element once, in some order.
\<close>

definition enumerates :: "(pystr set \<Rightarrow> pystr list) \<Rightarrow> bool" where
  "enumerates order \<longleftrightarrow> (\<forall>S. finite S \<longrightarrow> set (order S) = S \<and> distinct (order S))"

text \<open>
  The folder of the specification's first scenario: the first query shows the entry
  \<open>a\<close>, every later one the entries \<open>a\<close> and \<open>b\<close>; nothing raises. The iteration order of
  the set is left open.
\<close>

definition scenario_folder :: "(pystr set \<Rightarrow> pystr list) \<Rightarrow> folder_page" where
  "scenario_folder order =
     \<lparr>open_folder = None,
      file_data = (\<lambda>k. if k = 0
         then Inr [\<lparr>item_id = str ''a'', item_name = str ''x.pdf''\<rparr>]
         else Inr [\<lparr>item_id = str ''a'', item_name = str ''x.pdf''\<rparr>,
                   \<lparr>item_id = str ''b'', item_name = str ''y.pdf''\<rparr>]),
      scroll_by = (\<lambda>k. None),
      folder_page_down = (\<lambda>k. None),
      set_order = order,
      close_folder = None\<rparr>"

text \<open>
  Viewer pages for the examples: nothing raises but, perhaps, the URL query, whose answers
  are given. \<open>steady_page\<close> shows one new URL at every query, \<open>burst_page\<close> shows 201
  URLs at the first query (and one more at each later one).
\<close>

definition blob_url_of :: "nat \<Rightarrow> pystr" where
  "blob_url_of n = str ''blob:https://drive.google.com/'' @ decimal n"

definition quiet_viewer :: "(nat \<Rightarrow> exn + pystr list) \<Rightarrow> viewer_page" where
  "quiet_viewer answers =
     \<lparr>blob_urls = answers,
      scroll_last = (\<lambda>k. None),
      press_page_down = (\<lambda>k. None),
      fetch_blob = (\<lambda>u. Inr []),
      canvas_b64 = (\<lambda>u. Inr None),
      b64decode = (\<lambda>s. Inr [])\<rparr>"

definition steady_page :: viewer_page where
  "steady_page = quiet_viewer (\<lambda>k. Inr [blob_url_of k])"

definition burst_page :: viewer_page where
  "burst_page = quiet_viewer (\<lambda>k. Inr (map blob_url_of [0..<201 + k]))"

text \<open>The number a string of decimal digits stands for.\<close>

definition decimal_value :: "pystr \<Rightarrow> nat" where
  "decimal_value ds = foldl (\<lambda>a d. 10 * a + (d - 48)) 0 ds"

text \<open>
  The document of the examples: the pages' bytes, one after the other.
\<close>

definition concat_pages :: "bytes list \<Rightarrow> exn + bytes" where
  "concat_pages contents = Inr (concat contents)"

text \<open>
  Libraries for the examples; but where said, nothing raises. With \<open>broken_env\<close> no image
  can be decoded and \<open>img2pdf.convert\<close> raises. With \<open>strict_env\<close> the bytes \<open>junk\<close> are no
  image: \<open>Image.open\<close> raises on them, and \<open>img2pdf.convert\<close> raises when it is given
  them; every other image is opaque. \<open>locked_env\<close> is \<open>strict_env\<close> with a destination
  \<open>downloads/doc.pdf\<close> that cannot be opened for writing, \<open>full_disk_env\<close> with a write to
  the destination that fails after 3 bytes, \<open>stuck_env\<close> with a first temporary file that
  cannot be deleted. \<open>palette_env\<close> is \<open>strict_env\<close> where the bytes \<open>palette\<close> are a palette
  image and the converted image of page 1 cannot be opened for writing.
\<close>

definition broken_env :: pdf_env where
  "broken_env =
     \<lparr>open_wb = (\<lambda>p. None),
      write_fault = (\<lambda>p data. None),
      image_open = (\<lambda>data. Inl (Exception (str ''cannot identify image file''))),
      to_rgb_jpeg = (\<lambda>data. Inl (Exception (str ''cannot identify image file''))),
      save_fault = (\<lambda>p jpeg. None),
      img2pdf_convert = (\<lambda>contents. Inl (Exception (str ''unsupported image''))),
      unlink_fault = (\<lambda>p. None)\<rparr>"

definition strict_env :: pdf_env where
  "strict_env =
     \<lparr>open_wb = (\<lambda>p. None),
      write_fault = (\<lambda>p data. None),
      image_open = (\<lambda>data. if data = ''junk''
                             then Inl (Exception (str ''cannot identify image file''))
                             else Inr Mode_other),
      to_rgb_jpeg = (\<lambda>data. Inr data),
      save_fault = (\<lambda>p jpeg. None),
      img2pdf_convert = (\<lambda>contents. if ''junk'' \<in> set contents
                                       then Inl (Exception (str ''unsupported image''))
                                       else concat_pages contents),
      unlink_fault = (\<lambda>p. None)\<rparr>"

definition locked_env :: pdf_env where
  "locked_env =
     strict_env\<lparr>open_wb := (\<lambda>p. if p = str ''downloads/doc.pdf''
                                  then Some (Exception (str ''Permission denied''))
                                  else None)\<rparr>"

definition full_disk_env :: pdf_env where
  "full_disk_env =
     strict_env\<lparr>write_fault := (\<lambda>p data. if p = str ''downloads/doc.pdf''
                                  then Some (3, Exception (str ''No space left on device''))
                                  else None)\<rparr>"

definition stuck_env :: pdf_env where
  "stuck_env =
     strict_env\<lparr>unlink_fault := (\<lambda>p. if p = str ''temp_images/page_0000.png''
                                      then Some (Exception (str ''Permission denied''))
                                      else None)\<rparr>"


text \<open>
  Notions for the statements on assembly. \<open>jpg_page_path i\<close> is the path of the converted
  image \<open>i\<close>. \<open>temps_writable\<close>: every temporary page file can be opened and written.
  \<open>convert_outcome\<close> is what the \<open>try\<close> of lines 343 to 353 does with image \<open>i\<close>, whose
  bytes are \<open>data\<close>: it raises, or it keeps the image (\<open>None\<close>), or it writes the given
  JPEG. \<open>rgb_path_of\<close> is the path that then stands for the image, \<open>handed_on\<close> the content
  of the file at that path, and \<open>pages_handed_on\<close> are those contents for all the images,
  in order.
\<close>

definition jpg_page_path :: "nat \<Rightarrow> path" where
  "jpg_page_path i = with_suffix (str ''.jpg'') (temp_page_path i)"

definition temps_writable :: "pdf_env \<Rightarrow> bytes list \<Rightarrow> bool" where
  "temps_writable env image_data_list \<longleftrightarrow>
     (\<forall>i < length image_data_list.
        open_wb env (temp_page_path i) = None \<and>
        write_fault env (temp_page_path i) (image_data_list ! i) = None)"

definition convert_outcome :: "pdf_env \<Rightarrow> nat \<Rightarrow> bytes \<Rightarrow> exn + bytes option" where
  "convert_outcome env i data =
     (case image_open env data of
        Inl e \<Rightarrow> Inl e
      | Inr mode \<Rightarrow>
          (if mode \<in> {Mode_RGBA, Mode_LA, Mode_P}
           then (case to_rgb_jpeg env data of
                   Inl e \<Rightarrow> Inl e
                 | Inr jpeg \<Rightarrow>
                     (case open_wb env (jpg_page_path i) of
                        Some e \<Rightarrow> Inl e
                      | None \<Rightarrow>
                          (case save_fault env (jpg_page_path i) jpeg of
                             Some (left, e) \<Rightarrow> Inl e
                           | None \<Rightarrow> Inr (Some jpeg))))
           else Inr None))"

definition rgb_path_of :: "pdf_env \<Rightarrow> nat \<Rightarrow> bytes \<Rightarrow> path" where
  "rgb_path_of env i data =
     (case convert_outcome env i data of
        Inr (Some jpeg) \<Rightarrow> jpg_page_path i
      | _ \<Rightarrow> temp_page_path i)"

definition handed_on :: "pdf_env \<Rightarrow> nat \<Rightarrow> bytes \<Rightarrow> bytes" where
  "handed_on env i data =
     (case convert_outcome env i data of Inr (Some jpeg) \<Rightarrow> jpeg | _ \<Rightarrow> data)"

definition pages_handed_on :: "pdf_env \<Rightarrow> bytes list \<Rightarrow> bytes list" where
  "pages_handed_on env image_data_list =
     map (\<lambda>i. handed_on env i (image_data_list ! i)) [0..<length image_data_list]"


text \<open>An iteration order that differs from the ascending one.\<close>

definition descending_order :: "pystr set \<Rightarrow> pystr list" where
  "descending_order S = rev (sorted_list_of_set S)"

text \<open>
  A viewer and a folder whose query raises at attempt 1: the viewer shows page 0 at
  attempt 0, the folder is the scenario's folder but for that query.
\<close>

definition timeout_error :: exn where
  "timeout_error = Exception (str ''Timeout 30000ms exceeded'')"

definition flaky_viewer :: viewer_page where
  "flaky_viewer = quiet_viewer (\<lambda>k. if k = 1 then Inl timeout_error
                                      else Inr (map blob_url_of [0..<Suc k]))"

definition flaky_folder :: folder_page where
  "flaky_folder =
     (scenario_folder sorted_list_of_set)
       \<lparr>file_data := (\<lambda>k. if k = 1 then Inl timeout_error
                          else file_data (scenario_folder sorted_list_of_set) k)\<rparr>"

declare decimal.simps [simp del]

section \<open>Matching the file id\<close>

lemma str_Nil: "str [] = []"
  by (simp add: str_def)

lemma not_id_char_slash: "\<not> id_char 47"
  by (simp add: id_char_def)

lemma match_file_id_here:
  assumes "file_id \<noteq> []" "\<forall>c\<in>set file_id. id_char c"
  shows "match_file_id (str ''/file/d/'' @ file_id @ str ''/view'') = Some file_id"
  using assms
  by (simp add: match_file_id_def str_def takeWhile_append2 dropWhile_append2 not_id_char_slash takeWhile_tail dropWhile_append3)

section \<open>Sanitized file names\<close>

lemma rstrip_split:
  "xs = rstrip cs xs @ rev (takeWhile (\<lambda>c. c \<in> set cs) (rev xs))"
proof -
  let ?P = "\<lambda>c. c \<in> set cs"
  have "rev (dropWhile ?P (rev xs)) @ rev (takeWhile ?P (rev xs)) =
        rev (takeWhile ?P (rev xs) @ dropWhile ?P (rev xs))"
    by (simp only: rev_append)
  also have "\<dots> = xs"
    by (simp only: takeWhile_dropWhile_id rev_rev_ident)
  finally show ?thesis by (simp add: rstrip_def)
qed

lemma rstrip_cut_chars:
  "set (rev (takeWhile (\<lambda>c. c \<in> set cs) (rev xs))) \<subseteq> set cs"
  by (auto dest: set_takeWhileD)

lemma rstrip_last:
  "rstrip cs xs \<noteq> [] \<Longrightarrow> last (rstrip cs xs) \<notin> set cs"
  unfolding rstrip_def
  by (metis hd_dropWhile last_rev rev_is_Nil_conv)

lemma rstrip_length: "length (rstrip cs xs) \<le> length xs"
  by (simp add: rstrip_def length_dropWhile_le [of _ "rev xs", simplified])

lemma rstrip_nth: "i < length (rstrip cs xs) \<Longrightarrow> rstrip cs xs ! i = xs ! i"
  by (metis nth_append rstrip_split)

lemma rstrip_Nil_iff: "rstrip cs xs = [] \<longleftrightarrow> set xs \<subseteq> set cs"
  by (auto simp: rstrip_def dropWhile_eq_Nil_conv)

lemma rstrip_cut_nth:
  assumes "length (rstrip cs xs) \<le> i" "i < length xs"
  shows "xs ! i \<in> set cs"
proof -
  let ?t = "rev (takeWhile (\<lambda>c. c \<in> set cs) (rev xs))"
  have xs: "xs = rstrip cs xs @ ?t" by (rule rstrip_split)
  have len: "length xs = length (rstrip cs xs) + length ?t"
    by (metis xs length_append)
  have "xs ! i = (rstrip cs xs @ ?t) ! i" using xs by simp
  also have "\<dots> = ?t ! (i - length (rstrip cs xs))"
    using assms by (simp add: nth_append)
  also have "\<dots> \<in> set ?t" using assms len by (intro nth_mem) linarith
  finally show ?thesis using rstrip_cut_chars [of cs xs] by blast
qed

lemma dot_space: "set (str ''. '') = {46, 32}"
  by (auto simp: str_def)

lemma not_illegal_dot_space: "\<not> illegal_chars 46" "\<not> illegal_chars 32" "\<not> illegal_chars 95"
  by (simp_all add: illegal_chars_def str_def)

lemma re_sub_illegal_clean: "c \<in> set (re_sub_illegal s) \<Longrightarrow> \<not> illegal_chars c"
  by (auto simp: re_sub_illegal_def not_illegal_dot_space)

lemma sanitize_filename_unfold:
  "sanitize_filename s = take 200 (rstrip (str ''. '') (re_sub_illegal s))"
  by (simp add: sanitize_filename_def Let_def)

lemma re_sub_illegal_dot_space:
  "set (re_sub_illegal s) \<subseteq> {46, 32} \<longleftrightarrow> set s \<subseteq> {46, 32}"
proof -
  have "(if illegal_chars c then 95 else c) \<in> {46, 32} \<longleftrightarrow> c \<in> {46, 32}" for c :: nat
    using not_illegal_dot_space by auto
  then show ?thesis
    unfolding re_sub_illegal_def set_map image_subset_iff subset_iff by blast
qed

lemma rstrip_replicate:
  "c \<in> set cs \<Longrightarrow> rstrip cs (xs @ replicate n c) = rstrip cs xs"
proof -
  assume c: "c \<in> set cs"
  have "dropWhile (\<lambda>c. c \<in> set cs) (replicate n c @ ys) = dropWhile (\<lambda>c. c \<in> set cs) ys" for ys
    using c by (induction n) simp_all
  then show ?thesis by (simp add: rstrip_def)
qed

lemma sanitize_filename_long_dots:
  "sanitize_filename (str ''a'' @ replicate 250 46) = str ''a''"
proof -
  have "re_sub_illegal (str ''a'' @ replicate 250 46) = str ''a'' @ replicate 250 46"
    by (simp add: re_sub_illegal_def not_illegal_dot_space str_def illegal_chars_def)
  moreover have "rstrip (str ''. '') (str ''a'' @ replicate 250 46) = rstrip (str ''. '') (str ''a'')"
    by (rule rstrip_replicate) (simp add: str_def)
  moreover have "rstrip (str ''. '') (str ''a'') = str ''a''"
    by (simp add: rstrip_def str_def)
  ultimately show ?thesis by (simp add: sanitize_filename_unfold str_def)
qed

lemma replaced_dot_space:
  "(if illegal_chars c then 95 else c) \<in> {46, 32} \<longleftrightarrow> c \<in> {46, 32}" for c :: nat
  using not_illegal_dot_space by auto

lemma sanitize_filename_trim_point:
  "\<exists>t \<le> length s.
      (\<forall>i. t \<le> i \<and> i < length s \<longrightarrow> s ! i = 46 \<or> s ! i = 32) \<and>
      (0 < t \<longrightarrow> s ! (t - 1) \<noteq> 46 \<and> s ! (t - 1) \<noteq> 32) \<and>
      length (sanitize_filename s) = min 200 t"
proof -
  let ?m = "re_sub_illegal s"
  let ?r = "rstrip (str ''. '') ?m"
  let ?t = "length ?r"
  have san: "sanitize_filename s = take 200 ?r" by (rule sanitize_filename_unfold)
  have lenm: "length ?m = length s" by (simp add: re_sub_illegal_def)
  have lenr: "?t \<le> length s" using rstrip_length [of "str ''. ''" ?m] lenm by simp
  have m_nth: "?m ! i = (if illegal_chars (s ! i) then 95 else s ! i)" if "i < length s" for i
    using that by (simp add: re_sub_illegal_def)
  have cut: "s ! i = 46 \<or> s ! i = 32" if "?t \<le> i" "i < length s" for i
  proof -
    have "?m ! i \<in> set (str ''. '')"
      using that lenm by (intro rstrip_cut_nth) simp_all
    then have "?m ! i \<in> {46, 32}" unfolding dot_space .
    then have "(if illegal_chars (s ! i) then 95 else s ! i) \<in> {46, 32}"
      unfolding m_nth [OF that(2)] .
    then have "s ! i \<in> {46, 32}" unfolding replaced_dot_space .
    then show ?thesis by blast
  qed
  have lst: "s ! (?t - 1) \<noteq> 46 \<and> s ! (?t - 1) \<noteq> 32" if "0 < ?t"
  proof -
    from that have ne: "?r \<noteq> []" by auto
    have i: "?t - 1 < ?t" "?t - 1 < length s" using that lenr by arith+
    have "last ?r = ?r ! (?t - 1)" using ne by (simp add: last_conv_nth)
    also have "\<dots> = ?m ! (?t - 1)" using i by (simp add: rstrip_nth)
    also have "\<dots> = (if illegal_chars (s ! (?t - 1)) then 95 else s ! (?t - 1))"
      using i by (simp add: m_nth)
    finally have eq: "last ?r = (if illegal_chars (s ! (?t - 1)) then 95 else s ! (?t - 1))" .
    have "last ?r \<notin> set (str ''. '')" by (rule rstrip_last [OF ne])
    then have "last ?r \<notin> {46, 32}" unfolding dot_space .
    then have "(if illegal_chars (s ! (?t - 1)) then 95 else s ! (?t - 1)) \<notin> {46, 32}"
      unfolding eq .
    then have "s ! (?t - 1) \<notin> {46, 32}" unfolding replaced_dot_space .
    then show ?thesis by blast
  qed
  have len: "length (sanitize_filename s) = min 200 ?t" by (simp add: san min.commute)
  from lenr cut lst len show ?thesis by blast
qed

text \<open>
  Claim C7, as amended. For every input string the result holds, position by position,
  the input's characters, with an underscore in place of each control character and each
  of \<open><>:"/\|?*\<close> (they are replaced, not removed). Its length is the smaller of 200
  and the trim point \<open>t\<close> of the input: from \<open>t\<close> on the input holds dots and spaces only,
  and the character before \<open>t\<close>, if any, is neither; so the trailing dots and spaces
  are cut first, whatever the length of the input, and the rest is cut to 200 characters.
  When the result is shorter than 200 characters it does not end in a dot or a space. The
  result is empty exactly when the input holds nothing but dots and spaces: the function
  has no default name.
\<close>

theorem sanitize_filename_replaces:
  "length (sanitize_filename s) \<le> 200 \<and> length (sanitize_filename s) \<le> length s \<and>
   (\<forall>i < length (sanitize_filename s).
      sanitize_filename s ! i = (if illegal_chars (s ! i) then 95 else s ! i)) \<and>
   (length (sanitize_filename s) < 200 \<longrightarrow>
      (\<forall>i. length (sanitize_filename s) \<le> i \<and> i < length s \<longrightarrow> s ! i = 46 \<or> s ! i = 32) \<and>
      (sanitize_filename s \<noteq> [] \<longrightarrow>
         last (sanitize_filename s) \<noteq> 46 \<and> last (sanitize_filename s) \<noteq> 32)) \<and>
   (sanitize_filename s = [] \<longleftrightarrow> set s \<subseteq> {46, 32}) \<and>
   (\<exists>t \<le> length s.
      (\<forall>i. t \<le> i \<and> i < length s \<longrightarrow> s ! i = 46 \<or> s ! i = 32) \<and>
      (0 < t \<longrightarrow> s ! (t - 1) \<noteq> 46 \<and> s ! (t - 1) \<noteq> 32) \<and>
      length (sanitize_filename s) = min 200 t)"
proof -
  let ?m = "re_sub_illegal s"
  let ?r = "rstrip (str ''. '') ?m"
  have san: "sanitize_filename s = take 200 ?r" by (rule sanitize_filename_unfold)
  have lenm: "length ?m = length s" by (simp add: re_sub_illegal_def)
  have lenr: "length ?r \<le> length s" using rstrip_length [of "str ''. ''" ?m] lenm by simp
  have c1: "length (sanitize_filename s) \<le> 200" by (simp add: san)
  have c2: "length (sanitize_filename s) \<le> length s" using lenr by (simp add: san)
  have c3: "sanitize_filename s ! i = (if illegal_chars (s ! i) then 95 else s ! i)"
    if "i < length (sanitize_filename s)" for i
  proof -
    from that have i: "i < 200" "i < length ?r" by (simp_all add: san)
    then have "sanitize_filename s ! i = ?r ! i" by (simp add: san)
    also have "\<dots> = ?m ! i" using i by (simp add: rstrip_nth)
    also have "\<dots> = (if illegal_chars (s ! i) then 95 else s ! i)"
      using i lenr by (simp add: re_sub_illegal_def)
    finally show ?thesis .
  qed
  have c4: "(\<forall>i. length (sanitize_filename s) \<le> i \<and> i < length s \<longrightarrow> s ! i = 46 \<or> s ! i = 32) \<and>
      (sanitize_filename s \<noteq> [] \<longrightarrow>
         last (sanitize_filename s) \<noteq> 46 \<and> last (sanitize_filename s) \<noteq> 32)"
    if short: "length (sanitize_filename s) < 200"
  proof -
    from short have eq: "sanitize_filename s = ?r" by (simp add: san)
    have "s ! i = 46 \<or> s ! i = 32" if "length ?r \<le> i" "i < length s" for i
    proof -
      have "?m ! i \<in> set (str ''. '')"
        using that lenm by (intro rstrip_cut_nth) simp_all
      then have "?m ! i = 46 \<or> ?m ! i = 32" by (simp add: dot_space)
      moreover have "?m ! i = (if illegal_chars (s ! i) then 95 else s ! i)"
        using that by (simp add: re_sub_illegal_def)
      ultimately show ?thesis by (simp split: if_splits)
    qed
    moreover have "last ?r \<noteq> 46 \<and> last ?r \<noteq> 32" if "?r \<noteq> []"
      using rstrip_last [OF that] by (simp add: dot_space)
    ultimately show ?thesis by (simp add: eq)
  qed
  have "sanitize_filename s = [] \<longleftrightarrow> ?r = []" by (simp add: san)
  also have "\<dots> \<longleftrightarrow> set ?m \<subseteq> {46, 32}" by (simp add: rstrip_Nil_iff dot_space)
  also have "\<dots> \<longleftrightarrow> set s \<subseteq> {46, 32}" by (rule re_sub_illegal_dot_space)
  finally have c5: "sanitize_filename s = [] \<longleftrightarrow> set s \<subseteq> {46, 32}" .
  note c6 = sanitize_filename_trim_point [of s]
  from c1 c2 c3 c4 c5 c6 show ?thesis by (intro conjI allI impI) blast+
qed

theorem sanitize_filename_replaces_witness:
  "(1::nat) < length (sanitize_filename (str ''a:b. '')) \<and>
   length (sanitize_filename (str ''a:b. '')) < 200 \<and>
   sanitize_filename (str ''a:b. '') \<noteq> [] \<and>
   sanitize_filename (str ''a:b. '') ! 1 = 95 \<and>
   str ''a:b. '' ! 3 = 46 \<and>
   last (sanitize_filename (str ''a:b. '')) \<noteq> 46 \<and>
   last (sanitize_filename (str ''a:b. '')) \<noteq> 32 \<and>
   sanitize_filename (str ''a'' @ replicate 250 46) = str ''a''"
  using sanitize_filename_replaces [of "str ''a:b. ''"]
  by (simp add: sanitize_filename_long_dots)
     (simp add: sanitize_filename_def re_sub_illegal_def rstrip_def str_def illegal_chars_def)

text \<open>
  The claim as stated fails: the colon of \<open>a:b\<close> becomes an underscore and is not removed,
  and a name of dots only gives the empty string, not a default name.
\<close>

theorem sanitize_filename_counterexample:
  "sanitize_filename (str ''a:b'') = str ''a_b'' \<and> sanitize_filename (str ''...'') = []"
  by (simp add: sanitize_filename_def re_sub_illegal_def rstrip_def str_def illegal_chars_def)

section \<open>Decimal numerals\<close>

lemma decimal_value_decimal: "decimal_value (decimal n) = n"
proof (induction n rule: decimal.induct)
  case (1 n)
  show ?case
  proof (cases "n < 10")
    case True
    then show ?thesis by (subst decimal.simps) (simp add: decimal_value_def)
  next
    case False
    with 1 have "decimal_value (decimal (n div 10)) = n div 10" by simp
    then show ?thesis using False
      by (subst decimal.simps) (simp add: decimal_value_def)
  qed
qed

lemma decimal_inj: "decimal a = decimal b \<Longrightarrow> a = b"
  by (metis decimal_value_decimal)

lemma blob_url_of_inj: "blob_url_of a = blob_url_of b \<longleftrightarrow> a = b"
  by (auto simp: blob_url_of_def dest: decimal_inj)

section \<open>The page discovery loop\<close>

lemma add_new_urls_set:
  "set (fst (add_new_urls urls c a)) = set c \<union> set urls"
  by (induction urls c a rule: add_new_urls.induct) auto

lemma add_new_urls_distinct:
  "distinct c \<Longrightarrow> distinct (fst (add_new_urls urls c a))"
  by (induction urls c a rule: add_new_urls.induct) auto

lemma add_new_urls_extends:
  "\<exists>new. fst (add_new_urls urls c a) = c @ new \<and> snd (add_new_urls urls c a) = a + length new"
proof (induction urls c a rule: add_new_urls.induct)
  case (1 c a)
  then show ?case by simp
next
  case (2 u urls c a)
  show ?case
  proof (cases "u \<notin> set c")
    case True
    from 2(1) [OF True] obtain new where
      "fst (add_new_urls urls (c @ [u]) (a + 1)) = (c @ [u]) @ new"
      "snd (add_new_urls urls (c @ [u]) (a + 1)) = a + 1 + length new" by blast
    then have "fst (add_new_urls (u # urls) c a) = c @ (u # new) \<and>
               snd (add_new_urls (u # urls) c a) = a + length (u # new)"
      using True by simp
    then show ?thesis by blast
  next
    case False
    with 2(2) show ?thesis by simp
  qed
qed

lemma add_new_urls_added:
  "length (fst (add_new_urls urls c 0)) = length c + snd (add_new_urls urls c 0)"
  using add_new_urls_extends [of urls c 0] by auto

lemma add_new_urls_progress:
  assumes "u \<in> set urls" "u \<notin> set c"
  shows "0 < snd (add_new_urls urls c 0)"
proof (rule ccontr)
  assume "\<not> 0 < snd (add_new_urls urls c 0)"
  then have "snd (add_new_urls urls c 0) = 0" by simp
  with add_new_urls_extends [of urls c 0] have "fst (add_new_urls urls c 0) = c" by auto
  then have "set c \<union> set urls = set c" using add_new_urls_set [of urls c 0] by simp
  with assms show False by blast
qed

lemma add_new_urls_fresh:
  "distinct urls \<Longrightarrow> set urls \<inter> set c = {} \<Longrightarrow>
   add_new_urls urls c a = (c @ urls, a + length urls)"
  by (induction urls c a rule: add_new_urls.induct) auto

lemma urls_seen_Nil: "urls_seen page [] = {}"
  by (simp add: urls_seen_def)

lemma urls_seen_Cons:
  "urls_seen page (k # ks) =
     (case blob_urls page k of Inl e \<Rightarrow> {} | Inr urls \<Rightarrow> set urls) \<union> urls_seen page ks"
  by (simp add: urls_seen_def)

lemma urls_seen_append:
  "urls_seen page (xs @ ys) = urls_seen page xs \<union> urls_seen page ys"
  by (auto simp: urls_seen_def)

lemma scroll_last_into_view_None: "scroll_last_into_view page attempt = None"
  by (simp add: scroll_last_into_view_def split: option.splits)

lemma discover_blob_urls_invariant:
  "distinct c \<Longrightarrow> discover_blob_urls page attempts c nn = (ex, c', nn') \<Longrightarrow>
   distinct c' \<and> set c' \<subseteq> set c \<union> urls_seen page attempts \<and> (\<exists>new. c' = c @ new)"
proof (induction attempts arbitrary: c nn)
  case Nil
  then show ?case by simp
next
  case (Cons k ks)
  show ?case
  proof (cases "blob_urls page k")
    case (Inl e)
    with Cons.prems show ?thesis by simp
  next
    case (Inr urls)
    obtain c1 a where an: "add_new_urls urls c 0 = (c1, a)" by force
    have d1: "distinct c1" using add_new_urls_distinct [OF Cons.prems(1), of urls 0] an by simp
    have s1: "set c1 = set c \<union> set urls" using add_new_urls_set [of urls c 0] an by simp
    obtain new1 where n1: "c1 = c @ new1" using add_new_urls_extends [of urls c 0] an by auto
    have seen: "urls_seen page (k # ks) = set urls \<union> urls_seen page ks"
      by (simp add: urls_seen_Cons Inr)
    show ?thesis
    proof (cases "length c1 \<ge> max_pages_cap \<or>
                  (if a = 0 then nn + 1 else 0) \<ge> max_scroll_attempts_pages")
      case True
      with Cons.prems(2) Inr an have "c' = c1" by (auto simp: Let_def split: if_splits)
      with d1 s1 n1 seen show ?thesis by auto
    next
      case False
      with Cons.prems(2) Inr an
      have "discover_blob_urls page ks c1 (if a = 0 then nn + 1 else 0) = (ex, c', nn')"
        by (auto simp: Let_def scroll_last_into_view_None split: if_splits)
      from Cons.IH [OF d1 this] s1 n1 seen show ?thesis by auto
    qed
  qed
qed

section \<open>The page cap\<close>

lemma cap_reached_from:
  assumes new: "always_new page"
  shows "set c = urls_seen page [0..<i] \<Longrightarrow> distinct c \<Longrightarrow> i \<le> length c \<Longrightarrow>
         length c < max_pages_cap \<Longrightarrow> max_pages_cap \<le> j \<Longrightarrow>
         \<exists>c' nn'. discover_blob_urls page [i..<j] c nn = (Cap_reached, c', nn') \<and>
                  discover_blob_urls page [i..<max_pages_cap] c nn = (Cap_reached, c', nn') \<and>
                  max_pages_cap \<le> length c' \<and> distinct c'"
proof (induction "max_pages_cap - i" arbitrary: i c nn)
  case 0
  then show ?case by simp
next
  case (Suc n)
  from Suc.prems have ij: "i < j" "i < max_pages_cap" by simp_all
  then have range: "[i..<j] = i # [Suc i..<j]" "[i..<max_pages_cap] = i # [Suc i..<max_pages_cap]"
    by (simp_all add: upt_conv_Cons)
  from new obtain urls u where
    probe: "blob_urls page i = Inr urls" and u: "u \<in> set urls" "u \<notin> urls_seen page [0..<i]"
    unfolding always_new_def by blast
  obtain c1 a where an: "add_new_urls urls c 0 = (c1, a)" by force
  have d1: "distinct c1" using add_new_urls_distinct [OF Suc.prems(2), of urls 0] an by simp
  have s1: "set c1 = urls_seen page [0..<Suc i]"
    using add_new_urls_set [of urls c 0] an Suc.prems(1) probe
    by (simp add: urls_seen_append urls_seen_Cons urls_seen_Nil)
  have a: "0 < a" using add_new_urls_progress [of u urls c] u Suc.prems(1) an by simp
  have l1: "length c1 = length c + a" using add_new_urls_added [of urls c] an by simp
  show ?case
  proof (cases "max_pages_cap \<le> length c1")
    case True
    then have "discover_blob_urls page [i..<j] c nn = (Cap_reached, c1, nn)"
      "discover_blob_urls page [i..<max_pages_cap] c nn = (Cap_reached, c1, nn)"
      by (simp_all add: range probe an)
    with True d1 show ?thesis by blast
  next
    case False
    then have step:
      "discover_blob_urls page [i..<j] c nn = discover_blob_urls page [Suc i..<j] c1 0"
      "discover_blob_urls page [i..<max_pages_cap] c nn =
         discover_blob_urls page [Suc i..<max_pages_cap] c1 0"
      using a
      by (simp_all add: range probe an Let_def scroll_last_into_view_None
          max_scroll_attempts_pages_def)
    have "n = max_pages_cap - Suc i" using Suc.hyps(2) by simp
    from Suc.hyps(1) [OF this s1 d1 _ _ Suc.prems(5), of 0] False l1 a Suc.prems(3)
    show ?thesis unfolding step by simp
  qed
qed

lemma quiet_viewer_sel:
  "blob_urls (quiet_viewer answers) = answers"
  by (simp add: quiet_viewer_def)

lemma always_new_steady: "always_new steady_page"
  unfolding always_new_def
proof
  fix k
  have "blob_url_of k \<notin> urls_seen steady_page [0..<k]"
    by (auto simp: urls_seen_def steady_page_def quiet_viewer_sel blob_url_of_inj)
  then show "\<exists>urls. blob_urls steady_page k = Inr urls \<and>
                  (\<exists>u\<in>set urls. u \<notin> urls_seen steady_page [0..<k])"
    by (simp add: steady_page_def quiet_viewer_sel)
qed

lemma always_new_burst: "always_new burst_page"
  unfolding always_new_def
proof
  fix k
  have "blob_url_of (200 + k) \<notin> urls_seen burst_page [0..<k]"
    by (auto simp: urls_seen_def burst_page_def quiet_viewer_sel blob_url_of_inj)
  moreover have "blob_url_of (200 + k) \<in> set (map blob_url_of [0..<201 + k])"
    by simp
  ultimately show "\<exists>urls. blob_urls burst_page k = Inr urls \<and>
                       (\<exists>u\<in>set urls. u \<notin> urls_seen burst_page [0..<k])"
    by (simp only: burst_page_def quiet_viewer_sel) blast
qed

lemma burst_first_probe:
  "discover_blob_urls burst_page [0..<1000] [] 0 = (Cap_reached, map blob_url_of [0..<201], 0)"
proof -
  have r: "[0..<1000] = 0 # [Suc 0..<1000]" by (rule upt_conv_Cons) simp
  have d: "distinct (map blob_url_of [0..<201])"
    by (simp add: distinct_map inj_on_def blob_url_of_inj)
  have a: "add_new_urls (map blob_url_of [0..<201]) [] 0 = (map blob_url_of [0..<201], 201)"
    using add_new_urls_fresh [OF d, of "[]" 0] by simp
  show ?thesis
    unfolding r by (simp add: burst_page_def quiet_viewer_sel a max_pages_cap_def)
qed

text \<open>
  Claim C3, as amended. When every query succeeds and shows at least one URL never seen
  before, the page discovery loop ends at the cap check, within the first 200 attempts
  (the attempts from 200 on are never run), and the collected URLs are distinct and at
  least 200 (\<open>max_pages_cap\<close>) in number; the cap is checked only after all the new URLs
  of a query were added, so the number can exceed 200.
\<close>

theorem cap_reached_at_least:
  assumes "always_new page"
  shows "\<exists>c nn. discover_blob_urls page [0..<1000] [] 0 = (Cap_reached, c, nn) \<and>
                 discover_blob_urls page [0..<max_pages_cap] [] 0 = (Cap_reached, c, nn) \<and>
                 max_pages_cap \<le> length c \<and> distinct c"
proof -
  have s: "set [] = urls_seen page [0..<0]" by (simp add: urls_seen_def)
  from cap_reached_from [OF assms s, of 1000 0]
  show ?thesis by (simp add: max_pages_cap_def)
qed

theorem cap_reached_at_least_witness:
  "always_new steady_page \<and>
   (\<exists>c nn. discover_blob_urls steady_page [0..<1000] [] 0 = (Cap_reached, c, nn) \<and>
            200 \<le> length c \<and> distinct c)"
  using cap_reached_at_least [OF always_new_steady] always_new_steady
  by (auto simp: max_pages_cap_def)

text \<open>
  The claim as stated fails: \<open>burst_page\<close> shows a new URL at every query, and the loop ends
  with 201 collected URLs, not 200.
\<close>

theorem cap_overshoot_counterexample:
  "always_new burst_page \<and>
   length (fst (snd (discover_blob_urls burst_page [0..<1000] [] 0))) = 201"
  by (simp add: always_new_burst burst_first_probe)

section \<open>The folder scan\<close>

lemma add_new_file_ids_set:
  "fst (add_new_file_ids items S a) = S \<union> ids_of_items items"
  by (induction items S a rule: add_new_file_ids.induct) (auto simp: ids_of_items_def Let_def)

lemma ids_seen_Nil: "ids_seen page [] = {}"
  by (simp add: ids_seen_def)

lemma ids_seen_Cons:
  "ids_seen page (k # ks) =
     (case file_data page k of Inl e \<Rightarrow> {} | Inr items \<Rightarrow> ids_of_items items) \<union> ids_seen page ks"
  by (simp add: ids_seen_def)

lemma finite_ids_seen: "finite (ids_seen page attempts)"
  by (auto simp: ids_seen_def ids_of_items_def split: sum.splits)

lemma finite_urls_seen: "finite (urls_seen page attempts)"
  by (auto simp: urls_seen_def split: sum.splits)

lemma ids_seen_take: "ids_seen page (take m attempts) \<subseteq> ids_seen page attempts"
  unfolding ids_seen_def using set_take_subset [of m attempts] by blast

lemma scroll_folder_None: "scroll_folder page attempt = None"
  by (simp add: scroll_folder_def split: option.splits)

lemma scan_folder_collects:
  "scan_folder page attempts S nn = (ex, S', nn') \<Longrightarrow>
   \<exists>m \<le> length attempts. S' = S \<union> ids_seen page (take m attempts)"
proof (induction attempts arbitrary: S nn)
  case Nil
  then show ?case by (simp add: ids_seen_Nil)
next
  case (Cons k ks)
  show ?case
  proof (cases "file_data page k")
    case (Inl e)
    with Cons.prems have "S' = S \<union> ids_seen page (take 0 (k # ks))" by (simp add: ids_seen_Nil)
    then show ?thesis by blast
  next
    case (Inr items)
    obtain S1 a where an: "add_new_file_ids items S 0 = (S1, a)" by force
    have s1: "S1 = S \<union> ids_of_items items" using add_new_file_ids_set [of items S 0] an by simp
    have one: "ids_seen page (take 1 (k # ks)) = ids_of_items items"
      by (simp add: ids_seen_Cons ids_seen_Nil Inr)
    show ?thesis
    proof (cases "(if a = 0 then nn + 1 else 0) \<ge> max_scroll_attempts_folder")
      case True
      with Cons.prems Inr an have "S' = S1" by (auto simp: Let_def split: if_splits)
      with s1 one have "S' = S \<union> ids_seen page (take 1 (k # ks))" by simp
      moreover have "(1::nat) \<le> length (k # ks)" by simp
      ultimately show ?thesis by blast
    next
      case False
      with Cons.prems Inr an
      have "scan_folder page ks S1 (if a = 0 then nn + 1 else 0) = (ex, S', nn')"
        by (auto simp: Let_def scroll_folder_None split: if_splits)
      from Cons.IH [OF this] obtain m where m: "m \<le> length ks" "S' = S1 \<union> ids_seen page (take m ks)"
        by blast
      have "S' = S \<union> ids_seen page (take (Suc m) (k # ks))"
        using m s1 by (simp add: ids_seen_Cons Inr Un_assoc)
      moreover have "Suc m \<le> length (k # ks)" using m by simp
      ultimately show ?thesis by blast
    qed
  qed
qed

lemma inj_file_url: "file_url a = file_url b \<Longrightarrow> a = b"
  by (simp add: file_url_def)

lemma folder_file_urls_distinct:
  assumes "enumerates (set_order page)" "finite S"
  shows "distinct (folder_file_urls page S) \<and> set (folder_file_urls page S) = file_url ` S"
proof -
  from assms have en: "set (set_order page S) = S" "distinct (set_order page S)"
    unfolding enumerates_def by blast+
  then show ?thesis
    by (simp add: folder_file_urls_def distinct_map inj_on_def inj_file_url)
qed

section \<open>No duplicates in the collections\<close>

text \<open>
  Claim C9. The collections never hold an item twice. In page discovery, adding the URLs
  of a query to a list without duplicates gives a list without duplicates, so does the
  loop from any such state over any attempts (a prefix of the range gives the state the
  loop is in after that many attempts), and from the empty list the length never exceeds
  the number of distinct URLs the queries showed. In folder discovery the collection is
  a finite set, holds no more ids than the distinct ids the queries showed, and gives a
  list of file URLs without duplicates.
\<close>

theorem collected_has_no_duplicates:
  "(distinct c \<longrightarrow> distinct (fst (add_new_urls urls c a))) \<and>
   (distinct c \<longrightarrow> distinct (fst (snd (discover_blob_urls page attempts c nn)))) \<and>
   length (fst (snd (discover_blob_urls page attempts [] 0))) \<le> card (urls_seen page attempts) \<and>
   (finite S \<longrightarrow> finite (fst (snd (scan_folder fpage tries S n)))) \<and>
   card (fst (snd (scan_folder fpage tries {} 0))) \<le> card (ids_seen fpage tries) \<and>
   (enumerates (set_order fpage) \<and> finite S \<longrightarrow> distinct (folder_file_urls fpage S))"
proof -
  have p1: "distinct c \<longrightarrow> distinct (fst (add_new_urls urls c a))"
    by (simp add: add_new_urls_distinct)
  have p2: "distinct c \<longrightarrow> distinct (fst (snd (discover_blob_urls page attempts c nn)))"
  proof
    assume d: "distinct c"
    obtain ex c' nn' where r: "discover_blob_urls page attempts c nn = (ex, c', nn')"
      using prod_cases3 by blast
    from discover_blob_urls_invariant [OF d r] r show
      "distinct (fst (snd (discover_blob_urls page attempts c nn)))" by simp
  qed
  have p3: "length (fst (snd (discover_blob_urls page attempts [] 0))) \<le> card (urls_seen page attempts)"
  proof -
    obtain ex c' nn' where r: "discover_blob_urls page attempts [] 0 = (ex, c', nn')"
      using prod_cases3 by blast
    from discover_blob_urls_invariant [OF _ r]
    have d: "distinct c'" and s: "set c' \<subseteq> urls_seen page attempts" by simp_all
    have "length c' = card (set c')" using d by (simp add: distinct_card)
    also have "\<dots> \<le> card (urls_seen page attempts)"
      using s by (intro card_mono finite_urls_seen)
    finally show ?thesis using r by simp
  qed
  have p4: "finite S \<longrightarrow> finite (fst (snd (scan_folder fpage tries S n)))"
  proof
    assume f: "finite S"
    obtain ex S' n' where r: "scan_folder fpage tries S n = (ex, S', n')"
      using prod_cases3 by blast
    from scan_folder_collects [OF r] f r show "finite (fst (snd (scan_folder fpage tries S n)))"
      by (auto simp: finite_ids_seen)
  qed
  have p5: "card (fst (snd (scan_folder fpage tries {} 0))) \<le> card (ids_seen fpage tries)"
  proof -
    obtain ex S' n' where r: "scan_folder fpage tries {} 0 = (ex, S', n')"
      using prod_cases3 by blast
    from scan_folder_collects [OF r] obtain m where "S' = ids_seen fpage (take m tries)" by auto
    then have "S' \<subseteq> ids_seen fpage tries" using ids_seen_take by simp
    then have "card S' \<le> card (ids_seen fpage tries)"
      by (intro card_mono finite_ids_seen)
    then show ?thesis using r by simp
  qed
  have p6: "enumerates (set_order fpage) \<and> finite S \<longrightarrow> distinct (folder_file_urls fpage S)"
    using folder_file_urls_distinct by blast
  from p1 p2 p3 p4 p5 p6 show ?thesis by blast
qed

lemma enumerates_sorted: "enumerates sorted_list_of_set"
  by (simp add: enumerates_def)

lemma scenario_folder_sel:
  "open_folder (scenario_folder order) = None"
  "close_folder (scenario_folder order) = None"
  "set_order (scenario_folder order) = order"
  by (simp_all add: scenario_folder_def)

theorem collected_has_no_duplicates_witness:
  "distinct [blob_url_of 0] \<and>
   distinct (fst (add_new_urls [blob_url_of 0, blob_url_of 1, blob_url_of 0] [blob_url_of 0] 0)) \<and>
   distinct (fst (snd (discover_blob_urls steady_page [0..<3] [blob_url_of 0] 0))) \<and>
   finite {str ''a''} \<and>
   finite (fst (snd (scan_folder (scenario_folder sorted_list_of_set) [0..<100] {str ''a''} 0))) \<and>
   enumerates (set_order (scenario_folder sorted_list_of_set)) \<and>
   distinct (folder_file_urls (scenario_folder sorted_list_of_set) {str ''a''})"
  using collected_has_no_duplicates
    [of "[blob_url_of 0]" "[blob_url_of 0, blob_url_of 1, blob_url_of 0]" 0 steady_page
        "[0..<3]" 0 "{str ''a''}" "scenario_folder sorted_list_of_set" "[0..<100]" 0]
  by (simp add: scenario_folder_sel enumerates_sorted)

section \<open>Exceptions during discovery\<close>

lemma discover_blob_urls_append:
  "discover_blob_urls page (xs @ ys) c nn =
     (case discover_blob_urls page xs c nn of
        (ex, c', nn') \<Rightarrow> if ex = Range_exhausted then discover_blob_urls page ys c' nn'
                          else (ex, c', nn'))"
  by (induction xs arbitrary: c nn)
     (auto simp: Let_def scroll_last_into_view_None split: sum.splits prod.splits)

lemma scan_folder_append:
  "scan_folder page (xs @ ys) S n =
     (case scan_folder page xs S n of
        (ex, S', n') \<Rightarrow> if ex = Range_exhausted then scan_folder page ys S' n'
                        else (ex, S', n'))"
  by (induction xs arbitrary: S n)
     (auto simp: Let_def scroll_folder_None split: sum.splits prod.splits)

lemma discover_blob_urls_scroll_free:
  "discover_blob_urls (page\<lparr>scroll_last := s, press_page_down := d\<rparr>) attempts c nn =
   discover_blob_urls page attempts c nn"
  by (induction attempts arbitrary: c nn)
     (auto simp: Let_def scroll_last_into_view_None split: sum.splits prod.splits)

lemma scan_folder_scroll_free:
  "scan_folder (page\<lparr>scroll_by := s, folder_page_down := d\<rparr>) attempts S n =
   scan_folder page attempts S n"
  by (induction attempts arbitrary: S n)
     (auto simp: Let_def scroll_folder_None split: sum.splits prod.splits)

lemma upt_split: "k < m \<Longrightarrow> [0..<m] = [0..<k] @ k # [Suc k..<m]"
proof -
  assume km: "k < m"
  then have "[0..<k + (m - k)] = [0..<k] @ [k..<k + (m - k)]"
    by (intro upt_add_eq_append) simp
  moreover have "k + (m - k) = m" using km by simp
  ultimately have "[0..<m] = [0..<k] @ [k..<m]" by simp
  then show ?thesis using km by (simp only: upt_conv_Cons [OF km])
qed

lemma discover_stops_at_raise:
  assumes "k < 1000" "discover_blob_urls page [0..<k] [] 0 = (Range_exhausted, c, nn)"
    "blob_urls page k = Inl e"
  shows "discover_blob_urls page [0..<1000] [] 0 = (Raised e, c, nn)"
  using assms by (simp add: upt_split [OF assms(1)] discover_blob_urls_append)

lemma scan_stops_at_raise:
  assumes "j < 100" "scan_folder fpage [0..<j] {} 0 = (Range_exhausted, S, n)"
    "file_data fpage j = Inl e"
  shows "scan_folder fpage [0..<100] {} 0 = (Raised e, S, n)"
  using assms by (simp add: upt_split [OF assms(1)] scan_folder_append)

text \<open>
  Claim C2, as amended. An exception of the advance operation (the scroll, and the key
  press that is its fallback) is swallowed: whatever the two do, both discovery loops give
  the same result. An exception of the query is not: when the loop has run \<open>k\<close> attempts
  and the query of attempt \<open>k\<close> raises, the loop ends there. Neither function raises:
  page discovery returns the empty list (the URLs collected so far are lost), folder
  discovery keeps the ids collected so far and returns their URLs.
\<close>

theorem probe_error_ends_discovery:
  "discover_blob_urls (page\<lparr>scroll_last := s, press_page_down := d\<rparr>) attempts c0 n0 =
     discover_blob_urls page attempts c0 n0 \<and>
   scan_folder (fpage\<lparr>scroll_by := s', folder_page_down := d'\<rparr>) attempts S0 n0 =
     scan_folder fpage attempts S0 n0 \<and>
   (k < 1000 \<and> discover_blob_urls page [0..<k] [] 0 = (Range_exhausted, c, nn) \<and>
    blob_urls page k = Inl e \<longrightarrow>
      discover_blob_urls page [0..<1000] [] 0 = (Raised e, c, nn) \<and>
      capture_blob_images page = []) \<and>
   (j < 100 \<and> scan_folder fpage [0..<j] {} 0 = (Range_exhausted, S, n) \<and>
    file_data fpage j = Inl e' \<and> open_folder fpage = None \<and> close_folder fpage = None \<longrightarrow>
      scan_folder fpage [0..<100] {} 0 = (Raised e', S, n) \<and>
      extract_files_from_folder fpage = map file_url (set_order fpage S))"
proof -
  have p3: "discover_blob_urls page [0..<1000] [] 0 = (Raised e, c, nn) \<and>
            capture_blob_images page = []"
    if "k < 1000" "discover_blob_urls page [0..<k] [] 0 = (Range_exhausted, c, nn)"
       "blob_urls page k = Inl e"
  proof -
    have "discover_blob_urls page [0..<1000] [] 0 = (Raised e, c, nn)"
      using that by (rule discover_stops_at_raise)
    then show ?thesis by (simp add: capture_blob_images_def)
  qed
  have p4: "scan_folder fpage [0..<100] {} 0 = (Raised e', S, n) \<and>
            extract_files_from_folder fpage = map file_url (set_order fpage S)"
    if "j < 100" "scan_folder fpage [0..<j] {} 0 = (Range_exhausted, S, n)"
       "file_data fpage j = Inl e'" "open_folder fpage = None" "close_folder fpage = None"
  proof -
    have "scan_folder fpage [0..<100] {} 0 = (Raised e', S, n)"
      using that(1,2,3) by (rule scan_stops_at_raise)
    then show ?thesis
      using that by (simp add: extract_files_from_folder_def folder_file_urls_def)
  qed
  from p3 p4 show ?thesis
    by (simp add: discover_blob_urls_scroll_free scan_folder_scroll_free)
qed

lemma flaky_viewer_probes:
  "blob_urls flaky_viewer 0 = Inr [blob_url_of 0]"
  "blob_urls flaky_viewer 1 = Inl timeout_error"
  "blob_urls flaky_viewer (Suc 0) = Inl timeout_error"
  by (simp_all add: flaky_viewer_def quiet_viewer_sel)

lemma flaky_folder_sel:
  "file_data flaky_folder 0 = Inr [\<lparr>item_id = str ''a'', item_name = str ''x.pdf''\<rparr>]"
  "file_data flaky_folder 1 = Inl timeout_error"
  "file_data flaky_folder (Suc 0) = Inl timeout_error"
  "open_folder flaky_folder = None"
  "close_folder flaky_folder = None"
  "set_order flaky_folder = sorted_list_of_set"
  by (simp_all add: flaky_folder_def scenario_folder_def)

lemma flaky_viewer_first:
  "discover_blob_urls flaky_viewer [0..<1] [] 0 = (Range_exhausted, [blob_url_of 0], 0)"
  by (simp add: flaky_viewer_probes max_pages_cap_def max_scroll_attempts_pages_def
      scroll_last_into_view_None)

lemma flaky_folder_first:
  "scan_folder flaky_folder [0..<1] {} 0 = (Range_exhausted, {str ''a''}, 0)"
  by (simp add: flaky_folder_sel max_scroll_attempts_folder_def scroll_folder_None str_def)

theorem probe_error_ends_discovery_witness:
  "(1::nat) < 1000 \<and>
   discover_blob_urls flaky_viewer [0..<1] [] 0 = (Range_exhausted, [blob_url_of 0], 0) \<and>
   blob_urls flaky_viewer 1 = Inl timeout_error \<and>
   discover_blob_urls flaky_viewer [0..<1000] [] 0 = (Raised timeout_error, [blob_url_of 0], 0) \<and>
   capture_blob_images flaky_viewer = [] \<and>
   (1::nat) < 100 \<and>
   scan_folder flaky_folder [0..<1] {} 0 = (Range_exhausted, {str ''a''}, 0) \<and>
   file_data flaky_folder 1 = Inl timeout_error \<and>
   open_folder flaky_folder = None \<and> close_folder flaky_folder = None \<and>
   scan_folder flaky_folder [0..<100] {} 0 = (Raised timeout_error, {str ''a''}, 0) \<and>
   extract_files_from_folder flaky_folder = [file_url (str ''a'')]"
proof -
  have l1: "(1::nat) < 1000" and l2: "(1::nat) < 100" by simp_all
  have v1: "discover_blob_urls flaky_viewer [0..<1] [] 0 = (Range_exhausted, [blob_url_of 0], 0)"
    by (rule flaky_viewer_first)
  have v2: "blob_urls flaky_viewer 1 = Inl timeout_error" by (rule flaky_viewer_probes)
  have f1: "scan_folder flaky_folder [0..<1] {} 0 = (Range_exhausted, {str ''a''}, 0)"
    by (rule flaky_folder_first)
  have f2: "file_data flaky_folder 1 = Inl timeout_error" by (rule flaky_folder_sel)
  have f3: "open_folder flaky_folder = None" and f4: "close_folder flaky_folder = None"
    by (rule flaky_folder_sel)+
  have o: "map file_url (set_order flaky_folder {str ''a''}) = [file_url (str ''a'')]"
    by (simp add: flaky_folder_sel)
  from probe_error_ends_discovery
    [where page = flaky_viewer and fpage = flaky_folder and k = 1 and j = 1
       and c = "[blob_url_of 0]" and nn = 0 and e = timeout_error
       and S = "{str ''a''}" and n = 0 and e' = timeout_error]
    l1 l2 v1 v2 f1 f2 f3 f4
  have "discover_blob_urls flaky_viewer [0..<1000] [] 0 = (Raised timeout_error, [blob_url_of 0], 0) \<and>
        capture_blob_images flaky_viewer = [] \<and>
        scan_folder flaky_folder [0..<100] {} 0 = (Raised timeout_error, {str ''a''}, 0) \<and>
        extract_files_from_folder flaky_folder = map file_url (set_order flaky_folder {str ''a''})"
    by blast
  with l1 l2 v1 v2 f1 f2 f3 f4 o show ?thesis by (simp only: simp_thms)
qed

text \<open>
  The claim as stated fails: both loops end at the query that raises, at attempt 1, by
  none of the three termination conditions; the viewer's pages are lost, and the folder's
  entry \<open>b\<close>, which the query of attempt 2 would have shown, is never collected.
\<close>

theorem probe_error_counterexample:
  "discover_blob_urls flaky_viewer [0..<1000] [] 0 = (Raised timeout_error, [blob_url_of 0], 0) \<and>
   capture_blob_images flaky_viewer = [] \<and>
   scan_folder flaky_folder [0..<100] {} 0 = (Raised timeout_error, {str ''a''}, 0) \<and>
   file_data flaky_folder 2 =
     Inr [\<lparr>item_id = str ''a'', item_name = str ''x.pdf''\<rparr>,
          \<lparr>item_id = str ''b'', item_name = str ''y.pdf''\<rparr>] \<and>
   extract_files_from_folder flaky_folder = [file_url (str ''a'')]"
proof -
  have d: "discover_blob_urls flaky_viewer [0..<1000] [] 0 = (Raised timeout_error, [blob_url_of 0], 0)"
    by (rule discover_stops_at_raise [OF _ flaky_viewer_first flaky_viewer_probes(2)]) simp
  have s: "scan_folder flaky_folder [0..<100] {} 0 = (Raised timeout_error, {str ''a''}, 0)"
    by (rule scan_stops_at_raise [OF _ flaky_folder_first flaky_folder_sel(2)]) simp
  have f: "file_data flaky_folder 2 =
     Inr [\<lparr>item_id = str ''a'', item_name = str ''x.pdf''\<rparr>,
          \<lparr>item_id = str ''b'', item_name = str ''y.pdf''\<rparr>]"
    by (simp add: flaky_folder_def scenario_folder_def)
  show ?thesis
    using d s f
    by (simp add: capture_blob_images_def extract_files_from_folder_def folder_file_urls_def
        flaky_folder_sel)
qed

section \<open>Folder expansion\<close>

lemma scan_scenario:
  "scan_folder (scenario_folder order) [0..<100] {} 0 = (No_new_items, {str ''a'', str ''b''}, 15)"
  by (simp add: scenario_folder_def upt_conv_Cons str_def Let_def scroll_folder_def
      max_scroll_attempts_folder_def insert_commute)

lemma scan_folder_exhausted:
  "scan_folder page xs S n = (Range_exhausted, S', n') \<Longrightarrow> S' = S \<union> ids_seen page xs"
proof (induction xs arbitrary: S n)
  case Nil
  then show ?case by (simp add: ids_seen_Nil)
next
  case (Cons k ks)
  show ?case
  proof (cases "file_data page k")
    case (Inl e)
    with Cons.prems show ?thesis by simp
  next
    case (Inr items)
    obtain S1 a where an: "add_new_file_ids items S 0 = (S1, a)" by force
    have s1: "S1 = S \<union> ids_of_items items" using add_new_file_ids_set [of items S 0] an by simp
    from Cons.prems Inr an
    have "scan_folder page ks S1 (if a = 0 then n + 1 else 0) = (Range_exhausted, S', n')"
      by (auto simp: Let_def scroll_folder_None split: if_splits)
    from Cons.IH [OF this] s1 show ?thesis by (auto simp: ids_seen_Cons Inr)
  qed
qed

lemma scan_folder_single:
  "fst (snd (scan_folder page [k] S n)) = S \<union> ids_seen page [k]"
proof (cases "file_data page k")
  case (Inl e)
  then show ?thesis by (simp add: ids_seen_Cons ids_seen_Nil)
next
  case (Inr items)
  obtain S1 a where an: "add_new_file_ids items S 0 = (S1, a)" by force
  have s1: "S1 = S \<union> ids_of_items items" using add_new_file_ids_set [of items S 0] an by simp
  show ?thesis
    using Inr an s1 by (simp add: Let_def scroll_folder_None ids_seen_Cons ids_seen_Nil)
qed

lemma ids_seen_append: "ids_seen page (xs @ ys) = ids_seen page xs \<union> ids_seen page ys"
  by (auto simp: ids_seen_def)

lemma scan_folder_left_early:
  "fst (scan_folder page xs S n) \<noteq> Range_exhausted \<Longrightarrow>
   scan_folder page (xs @ ys) S n = scan_folder page xs S n"
  by (cases "scan_folder page xs S n") (simp add: scan_folder_append)

lemma upt_split2: "j \<le> k \<Longrightarrow> [0..<k] = [0..<j] @ [j..<k]"
  by (metis le_add_diff_inverse upt_add_eq_append zero_le)

lemma scan_folder_prefix_exhausted:
  assumes "fst (scan_folder page [0..<k] {} 0) = Range_exhausted" and "j \<le> k"
  shows "fst (scan_folder page [0..<j] {} 0) = Range_exhausted"
proof (rule ccontr)
  assume ne: "fst (scan_folder page [0..<j] {} 0) \<noteq> Range_exhausted"
  have "scan_folder page [0..<k] {} 0 = scan_folder page [0..<j] {} 0"
    using scan_folder_left_early [OF ne] by (simp only: upt_split2 [OF assms(2)])
  with ne assms(1) show False by simp
qed

lemma scan_folder_probes_made:
  "\<exists>m. 1 \<le> m \<and> m \<le> 100 \<and>
       (\<forall>k<m. fst (scan_folder page [0..<k] {} 0) = Range_exhausted) \<and>
       (m = 100 \<or> fst (scan_folder page [0..<m] {} 0) \<noteq> Range_exhausted) \<and>
       fst (snd (scan_folder page [0..<100] {} 0)) = ids_seen page [0..<m]"
proof -
  define Q where "Q k \<longleftrightarrow> k = 100 \<or> fst (scan_folder page [0..<k] {} 0) \<noteq> Range_exhausted" for k
  define m where "m = (LEAST k. Q k)"
  have Q100: "Q 100" by (simp add: Q_def)
  have Qm: "Q m" unfolding m_def using Q100 by (rule LeastI)
  have m100: "m \<le> 100" unfolding m_def using Q100 by (rule Least_le)
  have below: "\<not> Q k" if "k < m" for k using that not_less_Least unfolding m_def by blast
  have nQ0: "\<not> Q 0" by (simp add: Q_def)
  have m1: "1 \<le> m" using Qm nQ0 by (cases m) auto
  have reached: "fst (scan_folder page [0..<k] {} 0) = Range_exhausted" if "k < m" for k
    using below [OF that] by (simp add: Q_def)
  obtain S1 n1 where pre: "scan_folder page [0..<m - 1] {} 0 = (Range_exhausted, S1, n1)"
    using reached [of "m - 1"] m1 by (metis One_nat_def Suc_le_lessD diff_less fst_conv less_one prod_cases3)
  have S1: "S1 = ids_seen page [0..<m - 1]" using scan_folder_exhausted [OF pre] by simp
  have rng: "[0..<m] = [0..<m - 1] @ [m - 1]" using m1 by (metis Suc_diff_1 Suc_le_lessD One_nat_def upt_Suc_append zero_le)
  have "scan_folder page [0..<m] {} 0 = scan_folder page [m - 1] S1 n1"
    by (simp only: rng scan_folder_append pre) simp
  then have cm: "fst (snd (scan_folder page [0..<m] {} 0)) = ids_seen page [0..<m]"
    using scan_folder_single [of page "m - 1" S1 n1] S1
    by (simp only: rng ids_seen_append)
  have "scan_folder page [0..<100] {} 0 = scan_folder page [0..<m] {} 0"
  proof (cases "m = 100")
    case True
    then show ?thesis by simp
  next
    case False
    with Qm have "fst (scan_folder page [0..<m] {} 0) \<noteq> Range_exhausted" by (simp add: Q_def)
    from scan_folder_left_early [OF this] show ?thesis
      by (simp only: upt_split2 [OF m100])
  qed
  with cm have "fst (snd (scan_folder page [0..<100] {} 0)) = ids_seen page [0..<m]" by simp
  moreover from Qm have "m = 100 \<or> fst (scan_folder page [0..<m] {} 0) \<noteq> Range_exhausted"
    by (simp add: Q_def)
  ultimately show ?thesis using m1 m100 reached by blast
qed

lemma two_element_list:
  assumes "distinct xs" "set xs = {a, b}" "a \<noteq> b"
  shows "xs = [a, b] \<or> xs = [b, a]"
proof -
  have "length xs = 2" using assms by (metis distinct_card card_2_iff)
  then obtain x y where xy: "xs = [x, y]"
    by (metis (no_types) One_nat_def Suc_1 length_0_conv length_Suc_conv)
  with assms show ?thesis by auto
qed

lemma scenario_either_order:
  assumes "enumerates order"
  shows "extract_files_from_folder (scenario_folder order) = [file_url (str ''a''), file_url (str ''b'')] \<or>
         extract_files_from_folder (scenario_folder order) = [file_url (str ''b''), file_url (str ''a'')]"
proof -
  have fin: "finite {str ''a'', str ''b''}" by simp
  from assms fin have en: "set (order {str ''a'', str ''b''}) = {str ''a'', str ''b''}"
    "distinct (order {str ''a'', str ''b''})" unfolding enumerates_def by blast+
  have ne: "str ''a'' \<noteq> str ''b''" by (simp add: str_def)
  from two_element_list [OF en(2) en(1) ne]
  have "order {str ''a'', str ''b''} = [str ''a'', str ''b''] \<or>
        order {str ''a'', str ''b''} = [str ''b'', str ''a'']" .
  moreover have "extract_files_from_folder (scenario_folder order) =
                 map file_url (order {str ''a'', str ''b''})"
    by (simp add: extract_files_from_folder_def scan_scenario folder_file_urls_def
        scenario_folder_sel)
  ultimately show ?thesis by auto
qed

text \<open>
  Claim C1, as amended. When the folder page opens and closes without an exception, the
  file URLs a folder expands to are distinct and are exactly the file URLs of the
  non-empty ids that the queries made showed, one URL for each distinct id. The queries
  made are those of the attempts below \<open>m\<close>, where \<open>m\<close>, at least 1, is the number of
  attempts the loop ran: it reached every attempt below \<open>m\<close> and ended at attempt
  \<open>m - 1\<close>, or ran all 100. The order of the URLs is the order in which Python
  iterates over the set of ids, which need not be the order of first sight: for every such
  order the scenario's folder expands to the two file URLs for \<open>a\<close> and \<open>b\<close>, in one
  order or the other.
\<close>

theorem folder_expands_one_url_per_id:
  assumes "enumerates (set_order page)" and "open_folder page = None" and "close_folder page = None"
  shows "distinct (extract_files_from_folder page) \<and>
         (\<exists>m. 1 \<le> m \<and> m \<le> 100 \<and>
            (\<forall>k<m. fst (scan_folder page [0..<k] {} 0) = Range_exhausted) \<and>
            (m = 100 \<or> fst (scan_folder page [0..<m] {} 0) \<noteq> Range_exhausted) \<and>
            set (extract_files_from_folder page) = file_url ` ids_seen page [0..<m]) \<and>
         (enumerates order \<longrightarrow>
            extract_files_from_folder (scenario_folder order) =
              [file_url (str ''a''), file_url (str ''b'')] \<or>
            extract_files_from_folder (scenario_folder order) =
              [file_url (str ''b''), file_url (str ''a'')])"
proof -
  obtain ex S nn where scan: "scan_folder page [0..<100] {} 0 = (ex, S, nn)"
    using prod_cases3 by blast
  from scan_folder_probes_made [of page] scan obtain m where
    m: "1 \<le> m" "m \<le> 100" "\<forall>k<m. fst (scan_folder page [0..<k] {} 0) = Range_exhausted"
       "m = 100 \<or> fst (scan_folder page [0..<m] {} 0) \<noteq> Range_exhausted"
       "S = ids_seen page [0..<m]" by auto
  have fin: "finite S" using m(5) by (simp add: finite_ids_seen)
  have res: "extract_files_from_folder page = folder_file_urls page S"
    using assms(2,3) scan by (simp add: extract_files_from_folder_def)
  from folder_file_urls_distinct [OF assms(1) fin] m(5)
  have d: "distinct (folder_file_urls page S)"
    and s: "set (folder_file_urls page S) = file_url ` ids_seen page [0..<m]" by simp_all
  from d s m res scenario_either_order show ?thesis by (simp only:) blast
qed

theorem folder_expands_one_url_per_id_witness:
  "enumerates (set_order (scenario_folder sorted_list_of_set)) \<and>
   open_folder (scenario_folder sorted_list_of_set) = None \<and>
   close_folder (scenario_folder sorted_list_of_set) = None \<and>
   distinct (extract_files_from_folder (scenario_folder sorted_list_of_set)) \<and>
   set (extract_files_from_folder (scenario_folder sorted_list_of_set)) =
     {file_url (str ''a''), file_url (str ''b'')}"
proof -
  let ?p = "scenario_folder sorted_list_of_set"
  have h1: "enumerates (set_order ?p)" by (simp add: scenario_folder_sel enumerates_sorted)
  have h2: "open_folder ?p = None" by (simp add: scenario_folder_sel)
  have h3: "close_folder ?p = None" by (simp add: scenario_folder_sel)
  have "set (extract_files_from_folder ?p) = {file_url (str ''a''), file_url (str ''b'')}"
    by (simp add: extract_files_from_folder_def scan_scenario folder_file_urls_def
        scenario_folder_sel str_def)
  with folder_expands_one_url_per_id [OF h1 h2 h3] h1 h2 h3 show ?thesis by blast
qed

text \<open>
  The claim as stated fails: with an iteration order that yields \<open>b\<close> before \<open>a\<close> (here
  the descending order), the scenario's folder expands to the URL for \<open>b\<close>, then the one
  for \<open>a\<close>.
\<close>

theorem folder_order_counterexample:
  "extract_files_from_folder (scenario_folder descending_order) =
     [file_url (str ''b''), file_url (str ''a'')]"
  by (simp add: extract_files_from_folder_def scan_scenario folder_file_urls_def
      scenario_folder_sel descending_order_def str_def)

section \<open>File ids round-trip through the file URL\<close>

lemma file_url_is_file_url: "is_file_url (file_url file_id)"
proof -
  have "file_url file_id =
        str ''https://drive.google.com'' @ str ''/file/d/'' @ (file_id @ str ''/view'')"
    by (simp add: file_url_def str_def)
  then show ?thesis unfolding is_file_url_def by (metis sublist_appendI)
qed

lemma file_url_extracts:
  assumes "file_id \<noteq> []" and "\<forall>c\<in>set file_id. id_char c"
  shows "extract_file_id_from_url (file_url file_id) = Some file_id"
proof -
  have m: "match_file_id (str ''/file/d/'' @ file_id @ str ''/view'') = Some file_id"
    using assms by (rule match_file_id_here)
  have split: "file_url file_id =
               str ''https://drive.google.com'' @ (str ''/file/d/'' @ file_id @ str ''/view'')"
    by (simp add: file_url_def str_def)
  have "re_search_file_id (file_url file_id) = Some file_id"
    unfolding split using m by (simp add: str_def match_file_id_def)
  then show ?thesis by (simp add: extract_file_id_from_url_def)
qed

lemma ids_seen_nonempty: "file_id \<in> ids_seen page attempts \<Longrightarrow> file_id \<noteq> []"
proof -
  assume "file_id \<in> ids_seen page attempts"
  then obtain k where
    "file_id \<in> (case file_data page k of Inl e \<Rightarrow> {} | Inr items \<Rightarrow> ids_of_items items)"
    unfolding ids_seen_def by blast
  then show ?thesis by (cases "file_data page k") (auto simp: ids_of_items_def)
qed

lemma extract_files_from_folder_urls:
  assumes "enumerates (set_order page)" and "u \<in> set (extract_files_from_folder page)"
  shows "\<exists>file_id. file_id \<noteq> [] \<and> u = file_url file_id"
proof -
  obtain ex S nn where scan: "scan_folder page [0..<100] {} 0 = (ex, S, nn)"
    using prod_cases3 by blast
  from scan_folder_collects [OF scan] obtain m where m: "S = ids_seen page (take m [0..<100])"
    by auto
  then have fin: "finite S" by (simp add: finite_ids_seen)
  have "set (extract_files_from_folder page) \<subseteq> set (folder_file_urls page S)"
    using scan by (auto simp: extract_files_from_folder_def split: option.splits)
  with assms(2) folder_file_urls_distinct [OF assms(1) fin] have "u \<in> file_url ` S" by auto
  then obtain file_id where "file_id \<in> S" "u = file_url file_id" by blast
  with m ids_seen_nonempty show ?thesis by blast
qed

text \<open>
  Claim C10. For every non-empty file id made of characters of \<open>[a-zA-Z0-9-_]\<close> only,
  the id extracted from the file URL built for it is the id itself, and the URL is
  recognised as a file URL. Folder expansion builds URLs for non-empty ids only: every
  URL it returns is the file URL of a non-empty id and is recognised as a file URL, so
  it gives its id back when the id is made of those characters.
\<close>

theorem file_url_roundtrip:
  "(file_id \<noteq> [] \<and> (\<forall>c\<in>set file_id. id_char c) \<longrightarrow>
      extract_file_id_from_url (file_url file_id) = Some file_id \<and>
      is_file_url (file_url file_id)) \<and>
   (enumerates (set_order page) \<and> u \<in> set (extract_files_from_folder page) \<longrightarrow>
      is_file_url u \<and> (\<exists>file_id. file_id \<noteq> [] \<and> u = file_url file_id))"
  using file_url_extracts file_url_is_file_url extract_files_from_folder_urls by blast

theorem file_url_roundtrip_witness:
  "str ''1aB-_z'' \<noteq> [] \<and> list_all id_char (str ''1aB-_z'') \<and>
   extract_file_id_from_url (file_url (str ''1aB-_z'')) = Some (str ''1aB-_z'') \<and>
   enumerates (set_order (scenario_folder sorted_list_of_set)) \<and>
   file_url (str ''a'') \<in> set (extract_files_from_folder (scenario_folder sorted_list_of_set)) \<and>
   is_file_url (file_url (str ''a''))"
proof -
  have h1: "str ''1aB-_z'' \<noteq> []" by (simp add: str_def)
  have h2: "\<forall>c\<in>set (str ''1aB-_z''). id_char c" by (simp add: str_def id_char_def)
  have h3: "enumerates (set_order (scenario_folder sorted_list_of_set))"
    by (simp add: scenario_folder_sel enumerates_sorted)
  have h4: "file_url (str ''a'') \<in> set (extract_files_from_folder (scenario_folder sorted_list_of_set))"
    by (simp add: extract_files_from_folder_def scan_scenario folder_file_urls_def
        scenario_folder_sel str_def)
  note T = file_url_roundtrip [of "str ''1aB-_z''" "scenario_folder sorted_list_of_set"
      "file_url (str ''a'')"]
  from T h1 h2 have "extract_file_id_from_url (file_url (str ''1aB-_z'')) = Some (str ''1aB-_z'')"
    by blast
  moreover from T h3 h4 have "is_file_url (file_url (str ''a''))" by blast
  moreover have "list_all id_char (str ''1aB-_z'')" using h2 by (simp add: list_all_iff)
  ultimately show ?thesis using h1 h3 h4 by (simp only: simp_thms)
qed

section \<open>Output naming\<close>






section \<open>Temporary paths\<close>

lemma temp_page_path_0_1:
  "temp_page_path 0 = str ''temp_images/page_0000.png''"
  "temp_page_path (Suc 0) = str ''temp_images/page_0001.png''"
  by (simp_all add: temp_page_path_def pad4_def temp_dir_def path_join_def str_def
      decimal.simps numeral_3_eq_3)

lemma with_suffix_png: "with_suffix ext (x @ str ''.png'') = x @ ext"
  by (simp add: with_suffix_def str_def)

lemma decimal_value_zeros: "decimal_value (replicate k 48 @ ds) = decimal_value ds"
proof -
  have "foldl (\<lambda>a d. 10 * a + (d - 48)) 0 (replicate k 48) = (0::nat)"
    by (induction k) simp_all
  then show ?thesis by (simp add: decimal_value_def)
qed

lemma pad4_inj: "pad4 a = pad4 b \<Longrightarrow> a = b"
proof -
  assume "pad4 a = pad4 b"
  then have "decimal_value (pad4 a) = decimal_value (pad4 b)" by simp
  then show ?thesis by (simp add: pad4_def decimal_value_zeros decimal_value_decimal)
qed

lemma temp_page_path_inj: "temp_page_path a = temp_page_path b \<longleftrightarrow> a = b"
  by (auto simp: temp_page_path_def path_join_def dest: pad4_inj)

lemma jpg_page_path_eq:
  "jpg_page_path i = path_join temp_dir (str ''page_'' @ pad4 i) @ str ''.jpg''"
proof -
  have "temp_page_path i = path_join temp_dir (str ''page_'' @ pad4 i) @ str ''.png''"
    by (simp add: temp_page_path_def path_join_def)
  then show ?thesis by (simp only: jpg_page_path_def with_suffix_png)
qed

lemma jpg_page_path_inj: "jpg_page_path a = jpg_page_path b \<longleftrightarrow> a = b"
  by (auto simp: jpg_page_path_eq path_join_def dest: pad4_inj)

lemma temp_not_jpg: "temp_page_path a \<noteq> jpg_page_path b"
proof
  assume "temp_page_path a = jpg_page_path b"
  then have "rev (temp_page_path a) = rev (jpg_page_path b)" by simp
  then show False
    by (simp add: jpg_page_path_eq temp_page_path_def path_join_def str_def)
qed

lemma temp_page_path_in_temp_dir: "prefix (str ''temp_images/'') (temp_page_path i)"
  by (simp add: temp_page_path_def path_join_def temp_dir_def str_def)

lemma jpg_page_path_in_temp_dir: "prefix (str ''temp_images/'') (jpg_page_path i)"
  by (simp add: jpg_page_path_eq path_join_def temp_dir_def str_def)

lemma rgb_path_of_cases: "rgb_path_of env i data = temp_page_path i \<or> rgb_path_of env i data = jpg_page_path i"
  by (simp add: rgb_path_of_def split: sum.splits option.splits)

lemma rgb_path_of_in_temp_dir: "prefix (str ''temp_images/'') (rgb_path_of env i data)"
  using rgb_path_of_cases [of env i data] temp_page_path_in_temp_dir jpg_page_path_in_temp_dir
  by metis

section \<open>Writing the temporary files\<close>

lemma save_temp_images_step:
  "open_wb env (temp_page_path idx) = None \<Longrightarrow>
   write_fault env (temp_page_path idx) img = None \<Longrightarrow>
   save_temp_images env files idx (img # imgs) acc =
   save_temp_images env (files(temp_page_path idx \<mapsto> img)) (Suc idx) imgs
     (acc @ [temp_page_path idx])"
  by (simp add: Let_def f_write_def)

lemma save_temp_images_frame:
  "\<not> prefix (str ''temp_images/'') p \<Longrightarrow>
   fst (save_temp_images env files idx imgs acc) p = files p"
proof (induction imgs arbitrary: files idx acc)
  case Nil
  then show ?case by simp
next
  case (Cons img imgs)
  have ne: "temp_page_path idx \<noteq> p"
    using Cons.prems temp_page_path_in_temp_dir [of idx] by auto
  show ?case
  proof (cases "open_wb env (temp_page_path idx)")
    case (Some e)
    then show ?thesis by (simp add: Let_def)
  next
    case None
    show ?thesis
    proof (cases "write_fault env (temp_page_path idx) img")
      case None': None
      have "fst (save_temp_images env (files(temp_page_path idx \<mapsto> img)) (Suc idx) imgs
                  (acc @ [temp_page_path idx])) p = (files(temp_page_path idx \<mapsto> img)) p"
        by (rule Cons.IH [OF Cons.prems])
      with ne show ?thesis
        unfolding save_temp_images_step [OF None None'] by simp
    next
      case (Some we)
      obtain k e where "we = (k, e)" by force
      with None Some show ?thesis using ne by (simp add: Let_def f_write_def)
    qed
  qed
qed

lemma save_temp_images_ok:
  "(\<forall>i < length imgs. open_wb env (temp_page_path (idx + i)) = None \<and>
       write_fault env (temp_page_path (idx + i)) (imgs ! i) = None) \<Longrightarrow>
   \<exists>files1. save_temp_images env files idx imgs acc =
              (files1, Inr (acc @ map temp_page_path [idx..<idx + length imgs])) \<and>
            (\<forall>i < length imgs. files1 (temp_page_path (idx + i)) = Some (imgs ! i)) \<and>
            (\<forall>p. p \<notin> temp_page_path ` {idx..<idx + length imgs} \<longrightarrow> files1 p = files p)"
proof (induction imgs arbitrary: files idx acc)
  case Nil
  then show ?case by simp
next
  case (Cons img imgs)
  from Cons.prems have o: "open_wb env (temp_page_path idx) = None"
    and w: "write_fault env (temp_page_path idx) img = None" by auto
  from Cons.prems have rest: "\<forall>i < length imgs. open_wb env (temp_page_path (Suc idx + i)) = None \<and>
       write_fault env (temp_page_path (Suc idx + i)) (imgs ! i) = None" by auto
  let ?files' = "files(temp_page_path idx \<mapsto> img)"
  from Cons.IH [OF rest, of ?files' "acc @ [temp_page_path idx]"] obtain files1 where
    r: "save_temp_images env ?files' (Suc idx) imgs (acc @ [temp_page_path idx]) =
          (files1, Inr ((acc @ [temp_page_path idx]) @ map temp_page_path [Suc idx..<Suc idx + length imgs]))"
    and c: "\<forall>i < length imgs. files1 (temp_page_path (Suc idx + i)) = Some (imgs ! i)"
    and f: "\<forall>p. p \<notin> temp_page_path ` {Suc idx..<Suc idx + length imgs} \<longrightarrow> files1 p = ?files' p"
    by blast
  note step = save_temp_images_step [OF o w, of files imgs acc]
  have rng: "[idx..<idx + length (img # imgs)] = idx # [Suc idx..<Suc idx + length imgs]"
    using upt_conv_Cons [of idx "Suc idx + length imgs"] by simp
  have first: "files1 (temp_page_path idx) = Some img"
  proof -
    have "temp_page_path idx \<notin> temp_page_path ` {Suc idx..<Suc idx + length imgs}"
      by (auto simp: temp_page_path_inj)
    with f show ?thesis by simp
  qed
  have all: "files1 (temp_page_path (idx + i)) = Some ((img # imgs) ! i)"
    if "i < length (img # imgs)" for i
  proof (cases i)
    case 0
    with first show ?thesis by simp
  next
    case (Suc j)
    with that c show ?thesis by simp
  qed
  have frame: "files1 p = files p" if "p \<notin> temp_page_path ` {idx..<idx + length (img # imgs)}" for p
  proof -
    from that have "p \<noteq> temp_page_path idx" and
      "p \<notin> temp_page_path ` {Suc idx..<Suc idx + length imgs}" by auto
    with f show ?thesis by simp
  qed
  show ?case
    unfolding step r rng using all frame by simp
qed

lemma save_temp_images_fails:
  "\<not> (\<forall>i < length imgs. open_wb env (temp_page_path (idx + i)) = None \<and>
         write_fault env (temp_page_path (idx + i)) (imgs ! i) = None) \<Longrightarrow>
   \<exists>e. snd (save_temp_images env files idx imgs acc) = Inl e"
proof (induction imgs arbitrary: files idx acc)
  case Nil
  then show ?case by simp
next
  case (Cons img imgs)
  show ?case
  proof (cases "open_wb env (temp_page_path idx)")
    case (Some e)
    then show ?thesis by (simp add: Let_def)
  next
    case None
    show ?thesis
    proof (cases "write_fault env (temp_page_path idx) img")
      case (Some we)
      obtain k e where "we = (k, e)" by force
      with None Some show ?thesis by (simp add: Let_def f_write_def)
    next
      case None': None
      have "\<not> (\<forall>i < length imgs. open_wb env (temp_page_path (Suc idx + i)) = None \<and>
         write_fault env (temp_page_path (Suc idx + i)) (imgs ! i) = None)"
      proof
        assume a: "\<forall>i < length imgs. open_wb env (temp_page_path (Suc idx + i)) = None \<and>
         write_fault env (temp_page_path (Suc idx + i)) (imgs ! i) = None"
        have "open_wb env (temp_page_path (idx + i)) = None \<and>
              write_fault env (temp_page_path (idx + i)) ((img # imgs) ! i) = None"
          if "i < length (img # imgs)" for i
        proof (cases i)
          case 0
          with None None' show ?thesis by simp
        next
          case (Suc j)
          with that a show ?thesis by simp
        qed
        with Cons.prems show False by blast
      qed
      then show ?thesis
        unfolding save_temp_images_step [OF None None'] by (rule Cons.IH)
    qed
  qed
qed

section \<open>Converting the images\<close>

lemma convert_image_frame:
  "p \<noteq> with_suffix (str ''.jpg'') q \<Longrightarrow> fst (convert_image env files q) p = files p"
  by (simp add: convert_image_def save_jpeg_def Let_def
      split: option.splits sum.splits prod.splits)

lemma convert_image_raises:
  "files (temp_page_path i) = Some data \<Longrightarrow> convert_outcome env i data = Inl e \<Longrightarrow>
   snd (convert_image env files (temp_page_path i)) = Inl e"
  by (auto simp: convert_image_def convert_outcome_def save_jpeg_def jpg_page_path_def Let_def
      split: option.splits sum.splits prod.splits if_splits)

lemma convert_image_keeps:
  "files (temp_page_path i) = Some data \<Longrightarrow> convert_outcome env i data = Inr None \<Longrightarrow>
   convert_image env files (temp_page_path i) = (files, Inr (temp_page_path i))"
  by (auto simp: convert_image_def convert_outcome_def save_jpeg_def jpg_page_path_def Let_def
      split: option.splits sum.splits prod.splits if_splits)

lemma convert_image_converts:
  "files (temp_page_path i) = Some data \<Longrightarrow> convert_outcome env i data = Inr (Some jpeg) \<Longrightarrow>
   convert_image env files (temp_page_path i) =
     (files(jpg_page_path i \<mapsto> jpeg), Inr (jpg_page_path i))"
  by (auto simp: convert_image_def convert_outcome_def save_jpeg_def jpg_page_path_def Let_def
      split: option.splits sum.splits prod.splits if_splits)

lemma convert_images_head:
  assumes "files (temp_page_path i) = Some data"
  shows "\<exists>files1 lg1.
           convert_images env (temp_page_path i # rest) files acc lg =
             convert_images env rest files1 (acc @ [rgb_path_of env i data]) lg1 \<and>
           (\<forall>p. p \<noteq> jpg_page_path i \<longrightarrow> files1 p = files p) \<and>
           files1 (rgb_path_of env i data) = Some (handed_on env i data) \<and>
           (\<forall>e. convert_outcome env i data = Inl e \<longrightarrow>
                  lg1 = lg @ [convert_warning (temp_page_path i) e]) \<and>
           ((\<forall>e. convert_outcome env i data \<noteq> Inl e) \<longrightarrow> lg1 = lg)"
proof -
  have found: ?thesis
    if "convert_images env (temp_page_path i # rest) files acc lg =
          convert_images env rest files1 (acc @ [rgb_path_of env i data]) lg1"
      and "\<forall>p. p \<noteq> jpg_page_path i \<longrightarrow> files1 p = files p"
      and "files1 (rgb_path_of env i data) = Some (handed_on env i data)"
      and "\<forall>e. convert_outcome env i data = Inl e \<longrightarrow>
             lg1 = lg @ [convert_warning (temp_page_path i) e]"
      and "(\<forall>e. convert_outcome env i data \<noteq> Inl e) \<longrightarrow> lg1 = lg"
    for files1 lg1
    using that by blast
  show ?thesis
  proof (cases "convert_outcome env i data")
    case (Inl e)
    obtain files1 r where c: "convert_image env files (temp_page_path i) = (files1, r)"
      by force
    from convert_image_raises [where files = files, OF assms Inl] c have r: "r = Inl e" by simp
    have f: "files1 p = files p" if "p \<noteq> jpg_page_path i" for p
      using convert_image_frame [of p "temp_page_path i" env files] that c
      by (simp add: jpg_page_path_def)
    have t: "files1 (temp_page_path i) = Some data"
      using f [of "temp_page_path i"] temp_not_jpg [of i i] assms by simp
    show ?thesis
      by (rule found [of files1 "lg @ [convert_warning (temp_page_path i) e]"])
        (simp_all add: Inl c r f t rgb_path_of_def handed_on_def)
  next
    case (Inr o1)
    show ?thesis
    proof (cases o1)
      case None
      with Inr have k: "convert_outcome env i data = Inr None" by simp
      show ?thesis
        by (rule found [of files lg])
          (simp_all add: convert_image_keeps [where files = files, OF assms k] assms k
            rgb_path_of_def handed_on_def)
    next
      case (Some jpeg)
      with Inr have k: "convert_outcome env i data = Inr (Some jpeg)" by simp
      show ?thesis
        by (rule found [of "files(jpg_page_path i \<mapsto> jpeg)" lg])
          (simp_all add: convert_image_converts [where files = files, OF assms k] k
            rgb_path_of_def handed_on_def)
    qed
  qed
qed

lemma rgb_path_of_not_jpg: "i \<notin> set js \<Longrightarrow> rgb_path_of env i data \<notin> jpg_page_path ` set js"
  using rgb_path_of_cases [of env i data] by (auto simp: temp_not_jpg jpg_page_path_inj)

lemma convert_images_run:
  assumes "distinct js" and "\<forall>j \<in> set js. files (temp_page_path j) = Some (d j)"
  shows "\<exists>files2 lg2.
           convert_images env (map temp_page_path js) files acc lg =
             (files2, acc @ map (\<lambda>j. rgb_path_of env j (d j)) js, lg2) \<and>
           (\<forall>j \<in> set js. files2 (rgb_path_of env j (d j)) = Some (handed_on env j (d j))) \<and>
           (\<forall>p. p \<notin> jpg_page_path ` set js \<longrightarrow> files2 p = files p) \<and>
           set lg \<subseteq> set lg2 \<and>
           (\<forall>j \<in> set js. \<forall>e. convert_outcome env j (d j) = Inl e \<longrightarrow>
              convert_warning (temp_page_path j) e \<in> set lg2)"
  using assms
proof (induction js arbitrary: files acc lg)
  case Nil
  then show ?case by simp
next
  case (Cons i js)
  from Cons.prems have here: "files (temp_page_path i) = Some (d i)" by simp
  from Cons.prems have fresh: "i \<notin> set js" and dist: "distinct js" by simp_all
  from convert_images_head [where files = files and env = env and acc = acc and lg = lg
      and rest = "map temp_page_path js", OF here]
  obtain files1 lg1 where
    step: "convert_images env (temp_page_path i # map temp_page_path js) files acc lg =
             convert_images env (map temp_page_path js) files1 (acc @ [rgb_path_of env i (d i)]) lg1"
    and f1: "\<forall>p. p \<noteq> jpg_page_path i \<longrightarrow> files1 p = files p"
    and h1: "files1 (rgb_path_of env i (d i)) = Some (handed_on env i (d i))"
    and w1: "\<forall>e. convert_outcome env i (d i) = Inl e \<longrightarrow>
                  lg1 = lg @ [convert_warning (temp_page_path i) e]"
    and q1: "(\<forall>e. convert_outcome env i (d i) \<noteq> Inl e) \<longrightarrow> lg1 = lg"
    by blast
  have sub1: "set lg \<subseteq> set lg1"
  proof (cases "\<exists>e. convert_outcome env i (d i) = Inl e")
    case True
    with w1 show ?thesis by auto
  next
    case False
    with q1 show ?thesis by simp
  qed
  have rest: "\<forall>j \<in> set js. files1 (temp_page_path j) = Some (d j)"
    using f1 Cons.prems(2) temp_not_jpg by simp
  from Cons.IH [where files = files1 and acc = "acc @ [rgb_path_of env i (d i)]" and lg = lg1,
      OF dist rest]
  obtain files2 lg2 where
    r: "convert_images env (map temp_page_path js) files1 (acc @ [rgb_path_of env i (d i)]) lg1 =
          (files2, (acc @ [rgb_path_of env i (d i)]) @ map (\<lambda>j. rgb_path_of env j (d j)) js, lg2)"
    and h2: "\<forall>j \<in> set js. files2 (rgb_path_of env j (d j)) = Some (handed_on env j (d j))"
    and f2: "\<forall>p. p \<notin> jpg_page_path ` set js \<longrightarrow> files2 p = files1 p"
    and sub2: "set lg1 \<subseteq> set lg2"
    and w2: "\<forall>j \<in> set js. \<forall>e. convert_outcome env j (d j) = Inl e \<longrightarrow>
              convert_warning (temp_page_path j) e \<in> set lg2"
    by blast
  have a: "convert_images env (map temp_page_path (i # js)) files acc lg =
             (files2, acc @ map (\<lambda>j. rgb_path_of env j (d j)) (i # js), lg2)"
    using step r by simp
  have b: "\<forall>j \<in> set (i # js). files2 (rgb_path_of env j (d j)) = Some (handed_on env j (d j))"
  proof -
    have "files2 (rgb_path_of env i (d i)) = files1 (rgb_path_of env i (d i))"
      using f2 rgb_path_of_not_jpg [OF fresh] by blast
    with h1 h2 show ?thesis by simp
  qed
  have c: "\<forall>p. p \<notin> jpg_page_path ` set (i # js) \<longrightarrow> files2 p = files p"
    using f1 f2 by simp
  have d: "set lg \<subseteq> set lg2" using sub1 sub2 by blast
  have e: "\<forall>j \<in> set (i # js). \<forall>e. convert_outcome env j (d j) = Inl e \<longrightarrow>
              convert_warning (temp_page_path j) e \<in> set lg2"
  proof -
    have "convert_warning (temp_page_path i) e \<in> set lg2" if "convert_outcome env i (d i) = Inl e" for e
      using w1 that sub2 by auto
    with w2 show ?thesis by simp
  qed
  from a b c d e show ?case by blast
qed

section \<open>Reading, writing and deleting\<close>

lemma read_files_map:
  "\<forall>j \<in> set js. files (f j) = Some (g j) \<Longrightarrow> read_files files (map f js) = Inr (map g js)"
  by (induction js) simp_all

lemma unlink_all_frame: "p \<notin> set ps \<Longrightarrow> fst (unlink_all env ps files) p = files p"
  by (induction ps arbitrary: files) (auto split: option.splits)

lemma unlink_all_ok:
  "\<forall>p \<in> set ps. unlink_fault env p = None \<Longrightarrow>
   snd (unlink_all env ps files) = None \<and> (\<forall>p \<in> set ps. fst (unlink_all env ps files) p = None)"
proof (induction ps arbitrary: files)
  case Nil
  then show ?case by simp
next
  case (Cons q ps)
  then have q: "unlink_fault env q = None" and rest: "\<forall>p \<in> set ps. unlink_fault env p = None"
    by simp_all
  let ?files' = "if files q \<noteq> None then files(q := None) else files"
  have step: "unlink_all env (q # ps) files = unlink_all env ps ?files'"
    using q by simp
  have gone: "?files' q = None" by simp
  have "fst (unlink_all env ps ?files') q = None"
  proof (cases "q \<in> set ps")
    case True
    with Cons.IH [where files = ?files', OF rest] show ?thesis by blast
  next
    case False
    from unlink_all_frame [where files = ?files' and env = env, OF False] gone show ?thesis by simp
  qed
  with Cons.IH [where files = ?files', OF rest] show ?case unfolding step by simp
qed

lemma unlink_all_raises:
  "p \<in> set ps \<Longrightarrow> files p \<noteq> None \<Longrightarrow> unlink_fault env p \<noteq> None \<Longrightarrow>
   snd (unlink_all env ps files) \<noteq> None"
proof (induction ps arbitrary: files)
  case Nil
  then show ?case by simp
next
  case (Cons q ps)
  show ?case
  proof (cases "q = p")
    case True
    with Cons.prems show ?thesis by auto
  next
    case False
    with Cons.prems have in_rest: "p \<in> set ps" by simp
    show ?thesis
    proof (cases "files q \<noteq> None")
      case no: False
      then show ?thesis
        using Cons.IH [where files = files, OF in_rest Cons.prems(2,3)] by simp
    next
      case True
      show ?thesis
      proof (cases "unlink_fault env q")
        case (Some e)
        with True show ?thesis by simp
      next
        case None
        have there: "(files(q := None)) p \<noteq> None" using False Cons.prems(2) by simp
        have step: "unlink_all env (q # ps) files = unlink_all env ps (files(q := None))"
          using True None by simp
        show ?thesis
          unfolding step
          by (rule Cons.IH [where files = "files(q := None)", OF in_rest there Cons.prems(3)])
      qed
    qed
  qed
qed

section \<open>The run of the assembly\<close>

lemma unlink_all_exact:
  assumes "\<forall>p \<in> set ps. files p \<noteq> None"
  shows "snd (unlink_all env ps files) = None \<longleftrightarrow> (\<forall>p \<in> set ps. unlink_fault env p = None)"
proof
  assume "\<forall>p \<in> set ps. unlink_fault env p = None"
  then show "snd (unlink_all env ps files) = None"
    using unlink_all_ok [of ps env files] by simp
next
  assume quiet: "snd (unlink_all env ps files) = None"
  show "\<forall>p \<in> set ps. unlink_fault env p = None"
  proof
    fix p assume p: "p \<in> set ps"
    show "unlink_fault env p = None"
    proof (rule ccontr)
      assume "unlink_fault env p \<noteq> None"
      from unlink_all_raises [where files = files, OF p _ this] assms p quiet
      show False by blast
    qed
  qed
qed

lemma temps_writable_from_0:
  "temps_writable env imgs \<longleftrightarrow>
   (\<forall>i < length imgs. open_wb env (temp_page_path (0 + i)) = None \<and>
       write_fault env (temp_page_path (0 + i)) (imgs ! i) = None)"
  by (simp add: temps_writable_def)

lemma compile_pdf_not_writable:
  assumes "imgs \<noteq> []" and "\<not> temps_writable env imgs"
    and "\<not> prefix (str ''temp_images/'') out"
  shows "\<not> fst (compile_pdf env files imgs out) \<and>
         fst (snd (compile_pdf env files imgs out)) out = files out"
proof -
  obtain files1 r where s: "save_temp_images env files 0 imgs [] = (files1, r)" by force
  from save_temp_images_fails [of imgs env 0 files "[]"] assms(2) s
  obtain e where r: "r = Inl e" unfolding temps_writable_from_0 by auto
  from save_temp_images_frame [OF assms(3), of env files 0 imgs "[]"] s
  have "files1 out = files out" by simp
  then show ?thesis using assms(1) s r by (simp add: compile_pdf_def)
qed

lemma compile_pdf_prefix:
  assumes "imgs \<noteq> []" and "temps_writable env imgs"
  shows "\<exists>files2 lg2.
           (\<forall>p. \<not> prefix (str ''temp_images/'') p \<longrightarrow> files2 p = files p) \<and>
           (\<forall>i < length imgs. files2 (temp_page_path i) = Some (imgs ! i)) \<and>
           (\<forall>i < length imgs.
              files2 (rgb_path_of env i (imgs ! i)) = Some (handed_on env i (imgs ! i))) \<and>
           (\<forall>i < length imgs. \<forall>e. convert_outcome env i (imgs ! i) = Inl e \<longrightarrow>
              convert_warning (temp_page_path i) e \<in> set lg2) \<and>
           compile_pdf env files imgs out =
             (case write_pdf env files2
                     (map (\<lambda>i. rgb_path_of env i (imgs ! i)) [0..<length imgs]) out of
                (files3, Some e) \<Rightarrow> (False, files3, lg2 @ [compile_error e])
              | (files3, None) \<Rightarrow>
                  (case unlink_all env
                          (map temp_page_path [0..<length imgs] @
                           map (\<lambda>i. rgb_path_of env i (imgs ! i)) [0..<length imgs]) files3 of
                     (files4, Some e) \<Rightarrow>
                       (False, files4, lg2 @ [(INFO, str ''PDF compiled successfully: '' @ out), compile_error e])
                   | (files4, None) \<Rightarrow> (True, files4, lg2 @ [(INFO, str ''PDF compiled successfully: '' @ out)])))"
proof -
  let ?n = "length imgs"
  let ?lg = "[(INFO, str ''Compiling '' @ decimal ?n @ str '' images into PDF...'')]"
  from save_temp_images_ok [of imgs env 0 files "[]"] assms(2)
  obtain files1 where
    s: "save_temp_images env files 0 imgs [] = (files1, Inr (map temp_page_path [0..<?n]))"
    and c1: "\<forall>i < ?n. files1 (temp_page_path i) = Some (imgs ! i)"
    and f1: "\<forall>p. p \<notin> temp_page_path ` {0..<?n} \<longrightarrow> files1 p = files p"
    unfolding temps_writable_from_0 by auto
  have here: "\<forall>j \<in> set [0..<?n]. files1 (temp_page_path j) = Some (imgs ! j)"
    using c1 by simp
  from convert_images_run [where env = env and files = files1 and acc = "[]" and lg = ?lg
      and d = "\<lambda>j. imgs ! j", OF distinct_upt here]
  obtain files2 lg2 where
    c: "convert_images env (map temp_page_path [0..<?n]) files1 [] ?lg =
          (files2, [] @ map (\<lambda>j. rgb_path_of env j (imgs ! j)) [0..<?n], lg2)"
    and h2: "\<forall>j \<in> set [0..<?n].
               files2 (rgb_path_of env j (imgs ! j)) = Some (handed_on env j (imgs ! j))"
    and f2: "\<forall>p. p \<notin> jpg_page_path ` set [0..<?n] \<longrightarrow> files2 p = files1 p"
    and w2: "\<forall>j \<in> set [0..<?n]. \<forall>e. convert_outcome env j (imgs ! j) = Inl e \<longrightarrow>
               convert_warning (temp_page_path j) e \<in> set lg2"
    by blast
  have a: "\<forall>p. \<not> prefix (str ''temp_images/'') p \<longrightarrow> files2 p = files p"
  proof (intro allI impI)
    fix p assume out: "\<not> prefix (str ''temp_images/'') p"
    then have "p \<notin> jpg_page_path ` set [0..<?n]" and "p \<notin> temp_page_path ` {0..<?n}"
      using jpg_page_path_in_temp_dir temp_page_path_in_temp_dir by auto
    with f1 f2 show "files2 p = files p" by simp
  qed
  have b: "\<forall>i < ?n. files2 (temp_page_path i) = Some (imgs ! i)"
  proof (intro allI impI)
    fix i assume "i < ?n"
    have "temp_page_path i \<notin> jpg_page_path ` set [0..<?n]"
      using temp_not_jpg by auto
    with f2 c1 \<open>i < ?n\<close> show "files2 (temp_page_path i) = Some (imgs ! i)" by simp
  qed
  have h: "\<forall>i < ?n. files2 (rgb_path_of env i (imgs ! i)) = Some (handed_on env i (imgs ! i))"
    using h2 by simp
  have w: "\<forall>i < ?n. \<forall>e. convert_outcome env i (imgs ! i) = Inl e \<longrightarrow>
              convert_warning (temp_page_path i) e \<in> set lg2"
    using w2 by simp
  have run: "compile_pdf env files imgs out =
             (case write_pdf env files2
                     (map (\<lambda>i. rgb_path_of env i (imgs ! i)) [0..<?n]) out of
                (files3, Some e) \<Rightarrow> (False, files3, lg2 @ [compile_error e])
              | (files3, None) \<Rightarrow>
                  (case unlink_all env
                          (map temp_page_path [0..<?n] @
                           map (\<lambda>i. rgb_path_of env i (imgs ! i)) [0..<?n]) files3 of
                     (files4, Some e) \<Rightarrow>
                       (False, files4, lg2 @ [(INFO, str ''PDF compiled successfully: '' @ out), compile_error e])
                   | (files4, None) \<Rightarrow> (True, files4, lg2 @ [(INFO, str ''PDF compiled successfully: '' @ out)])))"
    using assms(1) s c by (simp add: compile_pdf_def Let_def)
  from a b h w run show ?thesis by blast
qed

lemma write_pdf_locked:
  "open_wb env out = Some e \<Longrightarrow> write_pdf env files rgb out = (files, Some e)"
  by (simp add: write_pdf_def)

lemma write_pdf_opened:
  assumes "open_wb env out = None" and "\<not> prefix (str ''temp_images/'') out"
    and "\<forall>i < length imgs.
           files (rgb_path_of env i (imgs ! i)) = Some (handed_on env i (imgs ! i))"
  shows "write_pdf env files (map (\<lambda>i. rgb_path_of env i (imgs ! i)) [0..<length imgs]) out =
           (case img2pdf_convert env (pages_handed_on env imgs) of
              Inl e \<Rightarrow> (files(out \<mapsto> []), Some e)
            | Inr pdf \<Rightarrow>
                (case write_fault env out pdf of
                   None \<Rightarrow> (files(out \<mapsto> pdf), None)
                 | Some (written, e) \<Rightarrow> (files(out \<mapsto> take written pdf), Some e)))"
proof -
  have ne: "rgb_path_of env i (imgs ! i) \<noteq> out" for i
    using rgb_path_of_in_temp_dir [of env i "imgs ! i"] assms(2) by auto
  have "\<forall>j \<in> set [0..<length imgs].
          (files(out \<mapsto> [])) (rgb_path_of env j (imgs ! j)) = Some (handed_on env j (imgs ! j))"
    using assms(3) ne by simp
  from read_files_map [where files = "files(out \<mapsto> [])" and
      f = "\<lambda>j. rgb_path_of env j (imgs ! j)" and g = "\<lambda>j. handed_on env j (imgs ! j)", OF this]
  have "read_files (files(out \<mapsto> [])) (map (\<lambda>i. rgb_path_of env i (imgs ! i)) [0..<length imgs])
        = Inr (pages_handed_on env imgs)"
    by (simp add: pages_handed_on_def)
  then show ?thesis
    using assms(1)
    by (simp add: write_pdf_def f_write_def Let_def split: sum.splits option.splits)
qed

section \<open>Facts for the examples of assemblies\<close>

lemma doc_outside_temp_dir: "\<not> prefix (str ''temp_images/'') (str ''downloads/doc.pdf'')"
  by (simp add: str_def)

lemma triple_collapse: "t = (fst t, fst (snd t), snd (snd t))"
  by simp

lemma temps_writable_one:
  "temps_writable env [a] \<longleftrightarrow>
     open_wb env (temp_page_path 0) = None \<and> write_fault env (temp_page_path 0) a = None"
  by (simp add: temps_writable_def)



section \<open>Temporary files after a failed assembly\<close>

lemmas eval_defs = compile_pdf_def convert_image_def write_pdf_def f_write_def save_jpeg_def
  compile_error_def convert_warning_def temp_page_path_0_1 with_suffix_def str_def
  decimal.simps Let_def

text \<open>
  Claim C4, at an input where the code breaks it. One page that is no image, with
  \<open>broken_env\<close>: \<open>img2pdf.convert\<close> raises, the function returns \<open>False\<close> through the
  handler of line 371, which deletes nothing, and the temporary file of the page is still
  there. The files are deleted on the successful path only (lines 364 to 367).
\<close>

theorem temp_file_left_after_failure:
  "fst (compile_pdf broken_env Map.empty [''junk''] (str ''downloads/doc.pdf'')) = False \<and>
   fst (snd (compile_pdf broken_env Map.empty [''junk''] (str ''downloads/doc.pdf'')))
     (str ''temp_images/page_0000.png'') = Some ''junk''"
  by (simp add: eval_defs broken_env_def)

section \<open>The destination after a failed assembly\<close>

text \<open>
  Claim C5, as amended. For a destination outside the temporary directory, what a failed
  assembly leaves at the destination depends on where it failed. With no images, with a
  temporary page file that cannot be written, or with a destination that cannot be opened
  for writing, the assembly fails and the destination is as it was before the call (so
  absent, if it was absent). Once the destination has been opened: if \<open>img2pdf.convert\<close>
  raises, the assembly fails and an empty file is left at the destination; if the write of
  the document fails part-way, the assembly fails and the bytes written before the failure
  are left there; if the write succeeds, the complete document is there, and the assembly
  still fails exactly when deleting one of the temporary files raises.
\<close>

theorem failed_assembly_destination:
  assumes "\<not> prefix (str ''temp_images/'') output_path"
    and "compile_pdf env files image_data_list output_path = (ok, files', lg)"
  shows "(image_data_list = [] \<longrightarrow> \<not> ok \<and> files' = files) \<and>
         (image_data_list \<noteq> [] \<and> \<not> temps_writable env image_data_list \<longrightarrow>
            \<not> ok \<and> files' output_path = files output_path) \<and>
         (image_data_list \<noteq> [] \<and> temps_writable env image_data_list \<longrightarrow>
            (case open_wb env output_path of
               Some e \<Rightarrow> \<not> ok \<and> files' output_path = files output_path
             | None \<Rightarrow>
                 (case img2pdf_convert env (pages_handed_on env image_data_list) of
                    Inl e \<Rightarrow> \<not> ok \<and> files' output_path = Some []
                  | Inr pdf \<Rightarrow>
                      (case write_fault env output_path pdf of
                         Some (written, e) \<Rightarrow>
                           \<not> ok \<and> files' output_path = Some (take written pdf)
                       | None \<Rightarrow>
                           files' output_path = Some pdf \<and>
                           (ok \<longleftrightarrow>
                              (\<forall>i < length image_data_list.
                                 unlink_fault env (temp_page_path i) = None \<and>
                                 unlink_fault env (rgb_path_of env i (image_data_list ! i))
                                   = None))))))"
proof (intro conjI impI)
  assume "image_data_list = []"
  with assms(2) show "\<not> ok" and "files' = files" by (simp_all add: compile_pdf_def)
next
  assume a: "image_data_list \<noteq> [] \<and> \<not> temps_writable env image_data_list"
  from compile_pdf_not_writable [where files = files, OF conjunct1 [OF a] conjunct2 [OF a] assms(1)]
  show "\<not> ok" and "files' output_path = files output_path"
    unfolding assms(2) by simp_all
next
  let ?n = "length image_data_list"
  let ?rgb = "map (\<lambda>i. rgb_path_of env i (image_data_list ! i)) [0..<?n]"
  let ?temps = "map temp_page_path [0..<?n]"
  assume a: "image_data_list \<noteq> [] \<and> temps_writable env image_data_list"
  from compile_pdf_prefix [where files = files and out = output_path,
      OF conjunct1 [OF a] conjunct2 [OF a]]
  obtain files2 lg2 where
    f: "\<forall>p. \<not> prefix (str ''temp_images/'') p \<longrightarrow> files2 p = files p"
    and t: "\<forall>i < ?n. files2 (temp_page_path i) = Some (image_data_list ! i)"
    and h: "\<forall>i < ?n. files2 (rgb_path_of env i (image_data_list ! i))
              = Some (handed_on env i (image_data_list ! i))"
    and run: "compile_pdf env files image_data_list output_path =
             (case write_pdf env files2 ?rgb output_path of
                (files3, Some e) \<Rightarrow> (False, files3, lg2 @ [compile_error e])
              | (files3, None) \<Rightarrow>
                  (case unlink_all env (?temps @ ?rgb) files3 of
                     (files4, Some e) \<Rightarrow>
                       (False, files4,
                        lg2 @ [(INFO, str ''PDF compiled successfully: '' @ output_path),
                               compile_error e])
                   | (files4, None) \<Rightarrow>
                       (True, files4,
                        lg2 @ [(INFO, str ''PDF compiled successfully: '' @ output_path)])))"
    by blast
  have same: "files2 output_path = files output_path" using f assms(1) by simp
  show "case open_wb env output_path of
          Some e \<Rightarrow> \<not> ok \<and> files' output_path = files output_path
        | None \<Rightarrow>
            (case img2pdf_convert env (pages_handed_on env image_data_list) of
               Inl e \<Rightarrow> \<not> ok \<and> files' output_path = Some []
             | Inr pdf \<Rightarrow>
                 (case write_fault env output_path pdf of
                    Some (written, e) \<Rightarrow>
                      \<not> ok \<and> files' output_path = Some (take written pdf)
                  | None \<Rightarrow>
                      files' output_path = Some pdf \<and>
                      (ok \<longleftrightarrow>
                         (\<forall>i < length image_data_list.
                            unlink_fault env (temp_page_path i) = None \<and>
                            unlink_fault env (rgb_path_of env i (image_data_list ! i))
                              = None))))"
  proof (cases "open_wb env output_path")
    case (Some e)
    from run assms(2) same show ?thesis
      by (simp add: Some write_pdf_locked [OF Some])
  next
    case None
    note w = write_pdf_opened [OF None assms(1) h]
    show ?thesis
    proof (cases "img2pdf_convert env (pages_handed_on env image_data_list)")
      case (Inl e)
      from run assms(2) show ?thesis by (simp add: None Inl w)
    next
      case (Inr pdf)
      show ?thesis
      proof (cases "write_fault env output_path pdf")
        case wf: (Some we)
        obtain written e where "we = (written, e)" by force
        with run assms(2) wf show ?thesis by (simp add: None Inr w)
      next
        case wf: None
        let ?files3 = "files2(output_path \<mapsto> pdf)"
        obtain files4 u where u: "unlink_all env (?temps @ ?rgb) ?files3 = (files4, u)"
          by force
        have out: "output_path \<notin> set (?temps @ ?rgb)"
          using assms(1) temp_page_path_in_temp_dir rgb_path_of_in_temp_dir by auto
        have there: "\<forall>p \<in> set (?temps @ ?rgb). ?files3 p \<noteq> None"
          using t h out by auto
        from unlink_all_frame [where files = ?files3 and env = env, OF out] u
        have kept: "files4 output_path = Some pdf" by simp
        from unlink_all_exact [where files = ?files3 and env = env, OF there] u
        have quiet: "u = None \<longleftrightarrow>
                (\<forall>i < ?n. unlink_fault env (temp_page_path i) = None \<and>
                           unlink_fault env (rgb_path_of env i (image_data_list ! i)) = None)"
          by auto
        have res: "(ok, files', lg) =
              (case u of
                 Some e \<Rightarrow>
                   (False, files4,
                    lg2 @ [(INFO, str ''PDF compiled successfully: '' @ output_path),
                           compile_error e])
               | None \<Rightarrow>
                   (True, files4,
                    lg2 @ [(INFO, str ''PDF compiled successfully: '' @ output_path)]))"
          using run assms(2) by (simp add: None Inr wf w u)
        have "files' = files4" and "ok \<longleftrightarrow> u = None"
          using res by (cases u; simp)+
        with kept quiet show ?thesis by (simp add: None Inr wf)
      qed
    qed
  qed
qed

theorem failed_assembly_destination_witness:
  "\<not> prefix (str ''temp_images/'') (str ''downloads/doc.pdf'') \<and>
   temps_writable locked_env [''page1''] \<and>
   open_wb locked_env (str ''downloads/doc.pdf'') = Some (Exception (str ''Permission denied'')) \<and>
   \<not> fst (compile_pdf locked_env Map.empty [''page1''] (str ''downloads/doc.pdf'')) \<and>
   fst (snd (compile_pdf locked_env Map.empty [''page1''] (str ''downloads/doc.pdf'')))
     (str ''downloads/doc.pdf'') = None \<and>
   temps_writable full_disk_env [''page1''] \<and>
   open_wb full_disk_env (str ''downloads/doc.pdf'') = None \<and>
   img2pdf_convert full_disk_env (pages_handed_on full_disk_env [''page1'']) = Inr ''page1'' \<and>
   write_fault full_disk_env (str ''downloads/doc.pdf'') ''page1''
     = Some (3, Exception (str ''No space left on device'')) \<and>
   \<not> fst (compile_pdf full_disk_env Map.empty [''page1''] (str ''downloads/doc.pdf'')) \<and>
   fst (snd (compile_pdf full_disk_env Map.empty [''page1''] (str ''downloads/doc.pdf'')))
     (str ''downloads/doc.pdf'') = Some ''pag'' \<and>
   temps_writable stuck_env [''page1''] \<and>
   open_wb stuck_env (str ''downloads/doc.pdf'') = None \<and>
   img2pdf_convert stuck_env (pages_handed_on stuck_env [''page1'']) = Inr ''page1'' \<and>
   write_fault stuck_env (str ''downloads/doc.pdf'') ''page1'' = None \<and>
   unlink_fault stuck_env (temp_page_path 0) = Some (Exception (str ''Permission denied'')) \<and>
   \<not> fst (compile_pdf stuck_env Map.empty [''page1''] (str ''downloads/doc.pdf'')) \<and>
   fst (snd (compile_pdf stuck_env Map.empty [''page1''] (str ''downloads/doc.pdf'')))
     (str ''downloads/doc.pdf'') = Some ''page1''"
proof -
  let ?out = "str ''downloads/doc.pdf''"
  have l1: "temps_writable locked_env [''page1'']"
    by (simp add: temps_writable_one locked_env_def strict_env_def temp_page_path_0_1 str_def)
  have l2: "open_wb locked_env ?out = Some (Exception (str ''Permission denied''))"
    by (simp add: locked_env_def)
  have l3: "\<not> fst (compile_pdf locked_env Map.empty [''page1''] ?out) \<and>
            fst (snd (compile_pdf locked_env Map.empty [''page1''] ?out)) ?out = None"
    using failed_assembly_destination [where files = Map.empty and output_path = ?out
        and image_data_list = "[''page1'']" and env = locked_env,
        OF doc_outside_temp_dir triple_collapse, THEN conjunct2, THEN conjunct2] l1 by (simp add: l2)
  have f1: "temps_writable full_disk_env [''page1'']"
    by (simp add: temps_writable_one full_disk_env_def strict_env_def temp_page_path_0_1 str_def)
  have f2: "open_wb full_disk_env ?out = None"
    by (simp add: full_disk_env_def strict_env_def)
  have f3: "img2pdf_convert full_disk_env (pages_handed_on full_disk_env [''page1'']) = Inr ''page1''"
    by (simp add: full_disk_env_def strict_env_def pages_handed_on_def handed_on_def
        convert_outcome_def concat_pages_def)
  have f4: "write_fault full_disk_env ?out ''page1''
              = Some (3, Exception (str ''No space left on device''))"
    by (simp add: full_disk_env_def)
  have f5: "\<not> fst (compile_pdf full_disk_env Map.empty [''page1''] ?out) \<and>
            fst (snd (compile_pdf full_disk_env Map.empty [''page1''] ?out)) ?out = Some ''pag''"
    using failed_assembly_destination [where files = Map.empty and output_path = ?out
        and image_data_list = "[''page1'']" and env = full_disk_env,
        OF doc_outside_temp_dir triple_collapse, THEN conjunct2, THEN conjunct2] f1 by (simp add: f2 f3 f4)
  have s1: "temps_writable stuck_env [''page1'']"
    by (simp add: temps_writable_one stuck_env_def strict_env_def)
  have s2: "open_wb stuck_env ?out = None"
    by (simp add: stuck_env_def strict_env_def)
  have s3: "img2pdf_convert stuck_env (pages_handed_on stuck_env [''page1'']) = Inr ''page1''"
    by (simp add: stuck_env_def strict_env_def pages_handed_on_def handed_on_def
        convert_outcome_def concat_pages_def)
  have s4: "write_fault stuck_env ?out ''page1'' = None"
    by (simp add: stuck_env_def strict_env_def)
  have s5: "unlink_fault stuck_env (temp_page_path 0) = Some (Exception (str ''Permission denied''))"
    by (simp add: stuck_env_def temp_page_path_0_1)
  have s6: "\<not> fst (compile_pdf stuck_env Map.empty [''page1''] ?out) \<and>
            fst (snd (compile_pdf stuck_env Map.empty [''page1''] ?out)) ?out = Some ''page1''"
    using failed_assembly_destination [where files = Map.empty and output_path = ?out
        and image_data_list = "[''page1'']" and env = stuck_env,
        OF doc_outside_temp_dir triple_collapse, THEN conjunct2, THEN conjunct2] s1 by (simp add: s2 s3 s4 s5)
  from doc_outside_temp_dir l1 l2 l3 f1 f2 f3 f4 f5 s1 s2 s3 s4 s5 s6
  show ?thesis by (simp only: simp_thms)
qed

text \<open>
  The claim as stated fails: with \<open>broken_env\<close> the assembly of one page fails, and an
  empty file is left at the destination, where no file was before.
\<close>

theorem empty_file_left_counterexample:
  "fst (compile_pdf broken_env Map.empty [''junk''] (str ''downloads/doc.pdf'')) = False \<and>
   Map.empty (str ''downloads/doc.pdf'') = (None :: bytes option) \<and>
   fst (snd (compile_pdf broken_env Map.empty [''junk''] (str ''downloads/doc.pdf'')))
     (str ''downloads/doc.pdf'') = Some []"
  by (simp add: eval_defs broken_env_def)

section \<open>Images that cannot be converted\<close>






end
